theory Spec2Isabelle
  imports Main "HOL-Library.Char_ord" "HOL-Library.List_Lexorder" "HOL-Library.AList"
begin

section \<open>Trigger computation (package restarton)\<close>

text \<open>
  Go's \<open>time.Time\<close> is used here only through \<open>After\<close>, \<open>Before\<close> and \<open>Equal\<close>,
  which compare instants. An instant is modelled as an integer offset from the zero value
  \<open>time.Time{}\<close>; instants before the zero value are representable in Go and are
  negative here.
\<close>

type_synonym time = int

definition zeroTime :: time where
  "zeroTime = 0"

definition After :: "time \<Rightarrow> time \<Rightarrow> bool" where
  "After t u = (u < t)"

definition Before :: "time \<Rightarrow> time \<Rightarrow> bool" where
  "Before t u = (t < u)"

record UIButton =
  ButtonName :: string
  LastClickedAt :: time

record FileEvent =
  EventTime :: time
  SeenFiles :: "string list"

record FileWatch =
  FileWatchName :: string
  LastEventTime :: time
  FileEvents :: "FileEvent list"

record StartOnSpec =
  StartOnUIButtons :: "string list"
  StartAfter :: time

record RestartOnSpec =
  RestartOnFileWatches :: "string list"
  RestartOnUIButtons :: "string list"

text \<open>
  The loop of \<open>LastStartEvent\<close> over \<open>startOn.UIButtons\<close>, with the two local
  variables \<open>latestTime\<close> and \<open>latestButton\<close> passed along. A name missing from the
  map is skipped.
\<close>

fun startLoop ::
  "StartOnSpec \<Rightarrow> (string \<rightharpoonup> UIButton) \<Rightarrow> string list \<Rightarrow> time \<Rightarrow> UIButton option
    \<Rightarrow> time \<times> UIButton option" where
  "startLoop startOn buttons [] latestTime latestButton = (latestTime, latestButton)"
| "startLoop startOn buttons (bn # bns) latestTime latestButton =
     (case buttons bn of
        None \<Rightarrow> startLoop startOn buttons bns latestTime latestButton
      | Some b \<Rightarrow>
          (let lastEventTime = LastClickedAt b in
           if \<not> Before lastEventTime (StartAfter startOn) \<and> After lastEventTime latestTime
           then startLoop startOn buttons bns lastEventTime (Some b)
           else startLoop startOn buttons bns latestTime latestButton))"

text \<open>A nil \<open>*StartOnSpec\<close> is \<open>None\<close>; a nil \<open>*UIButton\<close> result is \<open>None\<close>.\<close>

definition LastStartEvent ::
  "StartOnSpec option \<Rightarrow> (string \<rightharpoonup> UIButton) \<Rightarrow> time \<times> UIButton option" where
  "LastStartEvent startOn buttons =
     (case startOn of
        None \<Rightarrow> (zeroTime, None)
      | Some so \<Rightarrow> startLoop so buttons (StartOnUIButtons so) zeroTime None)"

text \<open>The first loop of \<open>LastRestartEvent\<close>, over \<open>restartOn.FileWatches\<close>.\<close>

fun fileWatchLoop :: "(string \<rightharpoonup> FileWatch) \<Rightarrow> string list \<Rightarrow> time \<Rightarrow> time" where
  "fileWatchLoop fileWatches [] cur = cur"
| "fileWatchLoop fileWatches (fwn # fwns) cur =
     (case fileWatches fwn of
        None \<Rightarrow> fileWatchLoop fileWatches fwns cur
      | Some fw \<Rightarrow>
          (let lastEventTime = LastEventTime fw in
           if After lastEventTime cur then fileWatchLoop fileWatches fwns lastEventTime
           else fileWatchLoop fileWatches fwns cur))"

text \<open>The second loop of \<open>LastRestartEvent\<close>, over \<open>restartOn.UIButtons\<close>.\<close>

fun buttonLoop ::
  "(string \<rightharpoonup> UIButton) \<Rightarrow> string list \<Rightarrow> time \<Rightarrow> UIButton option
    \<Rightarrow> time \<times> UIButton option" where
  "buttonLoop buttons [] cur latestButton = (cur, latestButton)"
| "buttonLoop buttons (bn # bns) cur latestButton =
     (case buttons bn of
        None \<Rightarrow> buttonLoop buttons bns cur latestButton
      | Some b \<Rightarrow>
          (let lastEventTime = LastClickedAt b in
           if After lastEventTime cur then buttonLoop buttons bns lastEventTime (Some b)
           else buttonLoop buttons bns cur latestButton))"

definition LastRestartEvent ::
  "RestartOnSpec option \<Rightarrow> (string \<rightharpoonup> FileWatch) \<Rightarrow> (string \<rightharpoonup> UIButton)
    \<Rightarrow> time \<times> UIButton option" where
  "LastRestartEvent restartOn fileWatches buttons =
     (case restartOn of
        None \<Rightarrow> (zeroTime, None)
      | Some ro \<Rightarrow>
          buttonLoop buttons (RestartOnUIButtons ro)
            (fileWatchLoop fileWatches (RestartOnFileWatches ro) zeroTime) None)"

text \<open>
  The inner loop of \<open>FilesChanged\<close>: \<open>for i := len(events) - 1; i >= 0; i--\<close>. The
  counter \<open>n\<close> is \<open>i + 1\<close>, so the loop starts at \<open>n = length events\<close> and reads
  \<open>events ! (n - 1)\<close>, always in range.
\<close>

fun eventLoop :: "FileEvent list \<Rightarrow> nat \<Rightarrow> time \<Rightarrow> string list \<Rightarrow> string list" where
  "eventLoop events 0 lastBuild filesChanged = filesChanged"
| "eventLoop events (Suc i) lastBuild filesChanged =
     (let e = events ! i in
      if After (EventTime e) lastBuild
      then eventLoop events i lastBuild (filesChanged @ SeenFiles e)
      else eventLoop events i lastBuild filesChanged)"

fun filesLoop ::
  "(string \<rightharpoonup> FileWatch) \<Rightarrow> string list \<Rightarrow> time \<Rightarrow> string list \<Rightarrow> string list" where
  "filesLoop fileWatches [] lastBuild filesChanged = filesChanged"
| "filesLoop fileWatches (fwn # fwns) lastBuild filesChanged =
     (case fileWatches fwn of
        None \<Rightarrow> filesLoop fileWatches fwns lastBuild filesChanged
      | Some fw \<Rightarrow>
          filesLoop fileWatches fwns lastBuild
            (eventLoop (FileEvents fw) (length (FileEvents fw)) lastBuild filesChanged))"

text \<open>
  Modelled from the spec: \<open>sliceutils.DedupedAndSorted\<close> is a helper of package
  \<open>internal/sliceutils\<close>, whose source is not part of the sources modelled here. The
  spec says of the result of \<open>filesChanged\<close> that it is deduplicated and sorted;
  strings are ordered as Go's \<open>sort.Strings\<close> orders them, bytewise and
  lexicographically.
\<close>

definition DedupedAndSorted :: "string list \<Rightarrow> string list" where
  "DedupedAndSorted slice = sort (remdups slice)"

text \<open>
  \<open>FilesChanged\<close> reads \<open>restartOn.FileWatches\<close> without a nil check: a nil
  \<open>restartOn\<close> panics, which is the result \<open>None\<close>.
\<close>

definition FilesChanged ::
  "RestartOnSpec option \<Rightarrow> (string \<rightharpoonup> FileWatch) \<Rightarrow> time \<Rightarrow> string list option" where
  "FilesChanged restartOn fileWatches lastBuild =
     (case restartOn of
        None \<Rightarrow> None
      | Some ro \<Rightarrow>
          Some (DedupedAndSorted (filesLoop fileWatches (RestartOnFileWatches ro) lastBuild [])))"

section \<open>The trigger-queue subscriber (package configs)\<close>

text \<open>
  \<open>fmt.Sprintf("%d", n)\<close>: the decimal digits of an integer, with a minus sign in
  front of a negative one. \<open>digitChar\<close> is only used below ten.
\<close>

definition digitChar :: "nat \<Rightarrow> char" where
  "digitChar d = ''0123456789'' ! d"

fun showNat :: "nat \<Rightarrow> string" where
  "showNat n = (if n < 10 then [digitChar n] else showNat (n div 10) @ [digitChar (n mod 10)])"

declare showNat.simps [simp del]

definition sprintfD :: "int \<Rightarrow> string" where
  "sprintfD i = (if i < 0 then CHR ''-'' # showNat (nat (- i)) else showNat (nat i))"

text \<open>
  The part of \<open>store.EngineState\<close> that the subscriber reads: the fields
  \<open>TriggerQueue\<close> and \<open>UIResources\<close>, and the method \<open>state.ManifestState(mn)\<close>,
  which returns the state of a manifest and whether there is one. The method belongs to
  package \<open>store\<close>; what it returns for each name is the field \<open>ManifestStateOf\<close>.
  \<open>model.BuildReason\<close> is an integer flag set; \<open>DisabledCount\<close>
  (\<open>uir.Status.DisableStatus.DisabledCount\<close>, an \<open>int32\<close>) is only compared with
  zero.
\<close>

type_synonym ManifestName = string
type_synonym BuildReason = int

record ManifestState =
  TriggerReason :: BuildReason

record UIResource =
  DisabledCount :: int

record EngineState =
  TriggerQueue :: "ManifestName list"
  ManifestStateOf :: "ManifestName \<rightharpoonup> ManifestState"
  UIResources :: "string \<rightharpoonup> UIResource"

record ConfigMap =
  ConfigMapName :: string
  Data :: "string \<rightharpoonup> string"

text \<open>
  The loop of \<open>fromState\<close> over \<open>state.TriggerQueue\<close> with its index \<open>i\<close>. When the
  manifest has no state, the loop goes on (\<open>continue\<close>) without a reason field.
\<close>

fun fromStateLoop ::
  "EngineState \<Rightarrow> nat \<Rightarrow> ManifestName list \<Rightarrow> (string \<rightharpoonup> string) \<Rightarrow> (string \<rightharpoonup> string)" where
  "fromStateLoop state i [] data = data"
| "fromStateLoop state i (v # vs) data =
     (let data1 = data(sprintfD (int i) @ ''-name'' \<mapsto> v) in
      case ManifestStateOf state v of
        None \<Rightarrow> fromStateLoop state (Suc i) vs data1
      | Some ms \<Rightarrow>
          fromStateLoop state (Suc i) vs
            (data1(sprintfD (int i) @ ''-reason-code'' \<mapsto> sprintfD (TriggerReason ms))))"

text \<open>
  The constant \<open>configmap.TriggerQueueName\<close> is declared in package \<open>configmap\<close>
  and is a parameter here.
\<close>

definition fromState :: "string \<Rightarrow> EngineState \<Rightarrow> ConfigMap" where
  "fromState TriggerQueueName state =
     \<lparr>ConfigMapName = TriggerQueueName,
      Data = fromStateLoop state 0 (TriggerQueue state) Map.empty\<rparr>"

text \<open>
  Actions dispatched to the store. \<open>store.NewLogAction(mn, spanID, level, nil, msg)\<close>
  is kept as its arguments (the fields argument is nil). The verb \<open>%q\<close> of
  \<open>fmt.Sprintf\<close> quotes a string as Go's \<open>strconv.Quote\<close> does; the quoting function
  is the parameter \<open>quote\<close>.
\<close>

datatype LogLevel = InfoLvl

datatype Action =
    LogAction ManifestName string LogLevel string
  | RemoveFromTriggerQueueAction ManifestName

fun removeLoop :: "(string \<Rightarrow> string) \<Rightarrow> EngineState \<Rightarrow> ManifestName list \<Rightarrow> Action list" where
  "removeLoop quote state [] = []"
| "removeLoop quote state (mn # mns) =
     (case UIResources state mn of
        None \<Rightarrow> removeLoop quote state mns
      | Some uir \<Rightarrow>
          if DisabledCount uir > 0
          then (let spanID = ''unqueue:'' @ mn;
                    msg = ''Will not build resource '' @ quote mn @ '': it is disabled''
                in LogAction mn spanID InfoLvl msg # RemoveFromTriggerQueueAction mn
                   # removeLoop quote state mns)
          else removeLoop quote state mns)"

definition removeDisabledManifests :: "(string \<Rightarrow> string) \<Rightarrow> EngineState \<Rightarrow> Action list" where
  "removeDisabledManifests quote state = removeLoop quote state (TriggerQueue state)"

text \<open>
  The subscriber keeps the ConfigMap it last wrote. The client is used through
  \<open>controllerutil.CreateOrUpdate\<close> only; a client is modelled by what it answers to a
  call, given the calls made before: \<open>None\<close> for success, or the error. The calls made so
  far are passed along and returned.
\<close>

record TriggerQueueSubscriber =
  lastUpdate :: "ConfigMap option"

definition NewTriggerQueueSubscriber :: TriggerQueueSubscriber where
  "NewTriggerQueueSubscriber = \<lparr>lastUpdate = None\<rparr>"

type_synonym 'c client = "'c list \<Rightarrow> 'c \<Rightarrow> string option"

record OnChangeResult =
  err :: "string option"
  subscriber :: TriggerQueueSubscriber
  upserts :: "ConfigMap list"
  dispatched :: "Action list"

text \<open>
  \<open>OnChange\<close>. \<open>summary.IsLogOnly()\<close> is the argument \<open>isLogOnly\<close>.
  \<open>apicmp.DeepEqual\<close> is a function of package \<open>apicmp\<close> and is the parameter
  \<open>DeepEqual\<close>. After a successful \<open>CreateOrUpdate\<close> the object
  \<open>obj\<close> holds \<open>cm.Data\<close> (the mutate callback stores it) and becomes
  \<open>lastUpdate\<close>; after a failed one \<open>lastUpdate\<close> is left as it was.
\<close>

definition OnChange ::
  "(string \<Rightarrow> string) \<Rightarrow> string \<Rightarrow> ((string \<rightharpoonup> string) \<Rightarrow> (string \<rightharpoonup> string) \<Rightarrow> bool)
    \<Rightarrow> ConfigMap client \<Rightarrow> TriggerQueueSubscriber \<Rightarrow> ConfigMap list \<Rightarrow> EngineState \<Rightarrow> bool
    \<Rightarrow> OnChangeResult" where
  "OnChange quote TriggerQueueName DeepEqual cl s calls st isLogOnly =
     (if isLogOnly then \<lparr>err = None, subscriber = s, upserts = calls, dispatched = []\<rparr>
      else
        let acts = removeDisabledManifests quote st;
            cm = fromState TriggerQueueName st
        in if (case lastUpdate s of None \<Rightarrow> False | Some lu \<Rightarrow> DeepEqual (Data cm) (Data lu))
           then \<lparr>err = None, subscriber = s, upserts = calls, dispatched = acts\<rparr>
           else
             let obj = \<lparr>ConfigMapName = ConfigMapName cm, Data = Data cm\<rparr> in
             case cl calls obj of
               Some e \<Rightarrow> \<lparr>err = Some e, subscriber = s, upserts = calls @ [obj], dispatched = acts\<rparr>
             | None \<Rightarrow> \<lparr>err = None, subscriber = s\<lparr>lastUpdate := Some obj\<rparr>,
                         upserts = calls @ [obj], dispatched = acts\<rparr>)"

section \<open>The owned-object reconciler (package configs)\<close>

text \<open>
  An \<open>object\<close> is a \<open>ctrlclient.Object\<close> with \<open>GetSpec\<close> and
  \<open>GetGroupVersionResource\<close>: its kind, name, labels, resource version and spec. The
  spec type differs from kind to kind and is a type parameter. An \<open>objectSet\<close> is a Go
  map from kind to a map from name to object; it is an association list here, whose order
  stands for the order in which \<open>range\<close> happens to visit the map.
\<close>

record GroupVersionResource =
  Group :: string
  Version :: string
  Resource :: string

record 'spec APIObject =
  ObjGVR :: GroupVersionResource
  ObjName :: string
  ObjLabels :: "string \<rightharpoonup> string"
  ObjResourceVersion :: string
  ObjSpec :: 'spec

type_synonym 'spec typedObjectSet = "(string \<times> 'spec APIObject) list"
type_synonym 'spec objectSet = "(GroupVersionResource \<times> 'spec typedObjectSet) list"

text \<open>
  The calls \<open>client.Create\<close>, \<open>client.Update\<close> and \<open>client.Delete\<close>, each with the
  object it is given. As for the subscriber, a client is what it answers to a call, given
  the calls made before.
\<close>

datatype 'spec APICall =
    Create "'spec APIObject"
  | Update "'spec APIObject"
  | Delete "'spec APIObject"

text \<open>
  The label constants and the kinds of the three listed types are declared in package
  \<open>v1alpha1\<close>; they are parameters, gathered in one record.
\<close>

record ConfigsEnv =
  LabelOwnerKind :: string
  LabelOwnerKindTiltfile :: string
  KubernetesApplyGVR :: GroupVersionResource
  ImageMapGVR :: GroupVersionResource
  FileWatchGVR :: GroupVersionResource

definition ownerSelector :: "ConfigsEnv \<Rightarrow> string \<times> string" where
  "ownerSelector env = (LabelOwnerKind env, LabelOwnerKindTiltfile env)"

text \<open>
  \<open>getExistingAPIObjects\<close>: three calls of \<open>client.List\<close> with the owner selector,
  each result turned into a map by name (\<open>kaMap[item.Name] = &item\<close>). The first error
  is returned. \<open>client.List\<close> is the parameter \<open>clientList\<close>.
\<close>

fun itemsLoop :: "'spec APIObject list \<Rightarrow> 'spec typedObjectSet \<Rightarrow> 'spec typedObjectSet" where
  "itemsLoop [] m = m"
| "itemsLoop (item # items) m = itemsLoop items (AList.update (ObjName item) item m)"

definition getExistingAPIObjects ::
  "ConfigsEnv \<Rightarrow> (GroupVersionResource \<Rightarrow> string \<times> string \<Rightarrow> string + 'spec APIObject list)
    \<Rightarrow> string + 'spec objectSet" where
  "getExistingAPIObjects env clientList =
     (let result = [] in
      case clientList (KubernetesApplyGVR env) (ownerSelector env) of
        Inl e \<Rightarrow> Inl e
      | Inr kaList \<Rightarrow>
          let kaMap = itemsLoop kaList [];
              result = AList.update (KubernetesApplyGVR env) kaMap result
          in
          case clientList (ImageMapGVR env) (ownerSelector env) of
            Inl e \<Rightarrow> Inl e
          | Inr imList \<Rightarrow>
              let imMap = itemsLoop imList [];
                  result = AList.update (ImageMapGVR env) imMap result
              in
              case clientList (FileWatchGVR env) (ownerSelector env) of
                Inl e \<Rightarrow> Inl e
              | Inr fwList \<Rightarrow>
                  let fwMap = itemsLoop fwList [];
                      result = AList.update (FileWatchGVR env) fwMap result
                  in Inr result)"

text \<open>
  One call of the client inside \<open>updateObjects\<close>: the call is made, and when it fails
  the error \<open>fmt.Errorf("<verb> %s/%s: %v", resource, name, err)\<close> is appended to
  \<open>errs\<close>. The pair passed along is the calls made so far and \<open>errs\<close>.
\<close>

definition applyCall ::
  "'spec APICall client \<Rightarrow> string \<Rightarrow> 'spec APIObject \<Rightarrow> 'spec APICall
    \<Rightarrow> 'spec APICall list \<times> string list \<Rightarrow> 'spec APICall list \<times> string list" where
  "applyCall client verb obj call st =
     (case client (fst st) call of
        None \<Rightarrow> (fst st @ [call], snd st)
      | Some e \<Rightarrow>
          (fst st @ [call],
           snd st @ [verb @ '' '' @ Resource (ObjGVR obj) @ ''/'' @ ObjName obj @ '': '' @ e]))"

text \<open>
  The first loop of \<open>updateObjects\<close>, over the new objects: the inner loop over one
  kind, then the outer loop. \<open>apicmp.DeepEqual\<close> is the parameter \<open>DeepEqual\<close>.
  \<open>obj.SetResourceVersion\<close> changes the new object before it is sent.
\<close>

fun upsertTyped ::
  "'spec APICall client \<Rightarrow> ('spec \<Rightarrow> 'spec \<Rightarrow> bool) \<Rightarrow> 'spec objectSet \<Rightarrow> GroupVersionResource
    \<Rightarrow> 'spec typedObjectSet \<Rightarrow> 'spec APICall list \<times> string list
    \<Rightarrow> 'spec APICall list \<times> string list" where
  "upsertTyped client DeepEqual oldObjects t [] st = st"
| "upsertTyped client DeepEqual oldObjects t ((name, obj) # s) st =
     (let old = (case map_of oldObjects t of None \<Rightarrow> None | Some oldSet \<Rightarrow> map_of oldSet name) in
      case old of
        None \<Rightarrow>
          upsertTyped client DeepEqual oldObjects t s (applyCall client ''create'' obj (Create obj) st)
      | Some old \<Rightarrow>
          if \<not> DeepEqual (ObjSpec old) (ObjSpec obj)
          then (let obj1 = obj\<lparr>ObjResourceVersion := ObjResourceVersion old\<rparr> in
                upsertTyped client DeepEqual oldObjects t s
                  (applyCall client ''update'' obj1 (Update obj1) st))
          else upsertTyped client DeepEqual oldObjects t s st)"

fun upsertLoop ::
  "'spec APICall client \<Rightarrow> ('spec \<Rightarrow> 'spec \<Rightarrow> bool) \<Rightarrow> 'spec objectSet \<Rightarrow> 'spec objectSet
    \<Rightarrow> 'spec APICall list \<times> string list \<Rightarrow> 'spec APICall list \<times> string list" where
  "upsertLoop client DeepEqual oldObjects [] st = st"
| "upsertLoop client DeepEqual oldObjects ((t, s) # newObjects) st =
     upsertLoop client DeepEqual oldObjects newObjects
       (upsertTyped client DeepEqual oldObjects t s st)"

text \<open>The second loop, over the old objects: delete what the new set does not name.\<close>

fun deleteTyped ::
  "'spec APICall client \<Rightarrow> 'spec objectSet \<Rightarrow> GroupVersionResource
    \<Rightarrow> 'spec typedObjectSet \<Rightarrow> 'spec APICall list \<times> string list
    \<Rightarrow> 'spec APICall list \<times> string list" where
  "deleteTyped client newObjects t [] st = st"
| "deleteTyped client newObjects t ((name, obj) # s) st =
     (if (case map_of newObjects t of None \<Rightarrow> False | Some newSet \<Rightarrow> map_of newSet name \<noteq> None)
      then deleteTyped client newObjects t s st
      else deleteTyped client newObjects t s (applyCall client ''delete'' obj (Delete obj) st))"

fun deleteLoop ::
  "'spec APICall client \<Rightarrow> 'spec objectSet \<Rightarrow> 'spec objectSet
    \<Rightarrow> 'spec APICall list \<times> string list \<Rightarrow> 'spec APICall list \<times> string list" where
  "deleteLoop client newObjects [] st = st"
| "deleteLoop client newObjects ((t, s) # oldObjects) st =
     deleteLoop client newObjects oldObjects (deleteTyped client newObjects t s st)"

text \<open>
  \<open>errors.NewAggregate\<close> (of the Kubernetes library) is nil for an empty list and the
  aggregate of the errors otherwise. \<open>updateObjects\<close> returns it; the calls made are
  returned with it.
\<close>

definition NewAggregate :: "string list \<Rightarrow> string list option" where
  "NewAggregate errs = (if errs = [] then None else Some errs)"

definition updateObjects ::
  "'spec APICall client \<Rightarrow> ('spec \<Rightarrow> 'spec \<Rightarrow> bool) \<Rightarrow> 'spec objectSet \<Rightarrow> 'spec objectSet
    \<Rightarrow> string list option \<times> 'spec APICall list" where
  "updateObjects client DeepEqual newObjects oldObjects =
     (let st0 = ([], []);
          st1 = upsertLoop client DeepEqual oldObjects newObjects st0;
          st2 = deleteLoop client newObjects oldObjects st1
      in (NewAggregate (snd st2), fst st2))"

section \<open>The process-server controller (package local)\<close>


























section \<open>Notions used to state the properties of the trigger computation\<close>

text \<open>
  Both button loops keep a running maximum over the buttons found in the map, in the order
  of the spec's name list. \<open>scanMax\<close> is that scan over the buttons themselves, with
  the extra test of \<open>LastStartEvent\<close> as the parameter \<open>ok\<close>; it is related to
  the loops of the source by the lemmas \<open>startLoop_scanMax\<close> and
  \<open>buttonLoop_scanMax\<close>.
\<close>

fun scanMax ::
  "(UIButton \<Rightarrow> bool) \<Rightarrow> UIButton list \<Rightarrow> time \<Rightarrow> UIButton option
    \<Rightarrow> time \<times> UIButton option" where
  "scanMax ok [] t lb = (t, lb)"
| "scanMax ok (b # bs) t lb =
     (if ok b \<and> t < LastClickedAt b then scanMax ok bs (LastClickedAt b) (Some b)
      else scanMax ok bs t lb)"

text \<open>
  Scan step \<open>j\<close> strictly improves the running maximum that started at \<open>cur\<close>: the
  click is after \<open>cur\<close> and after every click scanned before it.
\<close>

definition improves :: "time \<Rightarrow> UIButton list \<Rightarrow> nat \<Rightarrow> bool" where
  "improves cur bs j =
     (cur < LastClickedAt (bs ! j) \<and> (\<forall>k<j. LastClickedAt (bs ! k) < LastClickedAt (bs ! j)))"

text \<open>The file-watchers and buttons a RestartOnSpec names that the maps hold, in scan order.\<close>

definition referencedFileWatches :: "RestartOnSpec \<Rightarrow> (string \<rightharpoonup> FileWatch) \<Rightarrow> FileWatch list" where
  "referencedFileWatches ro fileWatches = List.map_filter fileWatches (RestartOnFileWatches ro)"

definition referencedButtons :: "RestartOnSpec \<Rightarrow> (string \<rightharpoonup> UIButton) \<Rightarrow> UIButton list" where
  "referencedButtons ro buttons = List.map_filter buttons (RestartOnUIButtons ro)"

text \<open>The value of \<open>cur\<close> after the file-watch loop, which starts at the zero time.\<close>

definition fileWatchMax :: "RestartOnSpec \<Rightarrow> (string \<rightharpoonup> FileWatch) \<Rightarrow> time" where
  "fileWatchMax ro fileWatches =
     Max (insert zeroTime (LastEventTime ` set (referencedFileWatches ro fileWatches)))"

section \<open>Notions used to state the properties of the trigger-queue subscriber\<close>

text \<open>The owning resource of a queue entry is disabled: it exists and its count is positive.\<close>

definition isDisabled :: "EngineState \<Rightarrow> ManifestName \<Rightarrow> bool" where
  "isDisabled state mn =
     (case UIResources state mn of None \<Rightarrow> False | Some uir \<Rightarrow> 0 < DisabledCount uir)"

definition isRemovalOf :: "ManifestName \<Rightarrow> Action \<Rightarrow> bool" where
  "isRemovalOf mn a = (a = RemoveFromTriggerQueueAction mn)"

fun isInfoLogOf :: "ManifestName \<Rightarrow> Action \<Rightarrow> bool" where
  "isInfoLogOf mn (LogAction m spanID lvl msg) = (m = mn \<and> lvl = InfoLvl)"
| "isInfoLogOf mn (RemoveFromTriggerQueueAction m) = False"

section \<open>Notions used to state the properties of the process-server controller\<close>












section \<open>Notions used to state the properties of the owned-object reconciler\<close>

text \<open>
  The object a set holds for a kind and a name. A set is well formed when it is a map
  (no key twice) and each object is stored under its own kind and name, as
  \<open>getExistingAPIObjects\<close> and the builders of the desired set store them.
\<close>

definition objectAt :: "'spec objectSet \<Rightarrow> GroupVersionResource \<Rightarrow> string \<Rightarrow> 'spec APIObject option" where
  "objectAt objects t name = (case map_of objects t of None \<Rightarrow> None | Some s \<Rightarrow> map_of s name)"

definition wellFormed :: "'spec objectSet \<Rightarrow> bool" where
  "wellFormed objects =
     (distinct (map fst objects) \<and>
      (\<forall>(t, s) \<in> set objects.
         distinct (map fst s) \<and>
         (\<forall>(name, obj) \<in> set s. ObjGVR obj = t \<and> ObjName obj = name)))"

text \<open>The calls, among a list of calls, whose object has a given kind and name.\<close>

fun callObject :: "'spec APICall \<Rightarrow> 'spec APIObject" where
  "callObject (Create obj) = obj"
| "callObject (Update obj) = obj"
| "callObject (Delete obj) = obj"

definition callsFor :: "GroupVersionResource \<Rightarrow> string \<Rightarrow> 'spec APICall list \<Rightarrow> 'spec APICall list" where
  "callsFor t name calls =
     filter (\<lambda>c. ObjGVR (callObject c) = t \<and> ObjName (callObject c) = name) calls"

text \<open>
  The errors that a list of calls yields when it is replayed against a client, one call
  after the other, each error formatted as \<open>updateObjects\<close> formats it.
\<close>

fun callVerb :: "'spec APICall \<Rightarrow> string" where
  "callVerb (Create obj) = ''create''"
| "callVerb (Update obj) = ''update''"
| "callVerb (Delete obj) = ''delete''"

fun replayErrors :: "'spec APICall client \<Rightarrow> 'spec APICall list \<Rightarrow> 'spec APICall list \<Rightarrow> string list" where
  "replayErrors client done [] = []"
| "replayErrors client done (c # cs) =
     (case client done c of
        None \<Rightarrow> []
      | Some e \<Rightarrow> [callVerb c @ '' '' @ Resource (ObjGVR (callObject c)) @ ''/'' @
                    ObjName (callObject c) @ '': '' @ e])
     @ replayErrors client (done @ [c]) cs"

text \<open>The client that accepts every call.\<close>

definition neverFails :: "'c client" where
  "neverFails done c = None"

text \<open>An object carries the owner label.\<close>

definition owned :: "ConfigsEnv \<Rightarrow> 'spec APIObject \<Rightarrow> bool" where
  "owned env obj = (ObjLabels obj (LabelOwnerKind env) = Some (LabelOwnerKindTiltfile env))"

text \<open>
  A client whose \<open>List\<close> answers from the objects of a store and honours the kind and
  the label selector.
\<close>

definition listFrom ::
  "'spec APIObject list \<Rightarrow> GroupVersionResource \<Rightarrow> string \<times> string \<Rightarrow> string + 'spec APIObject list" where
  "listFrom store gvr selector =
     Inr (filter (\<lambda>obj. ObjGVR obj = gvr \<and> ObjLabels obj (fst selector) = Some (snd selector)) store)"

text \<open>
  The calls that one entry of the new set, and one entry of the old set, give rise to; the
  calls of a whole pass; and the effect of making a list of calls in order.
\<close>

definition upsertCalls ::
  "('spec \<Rightarrow> 'spec \<Rightarrow> bool) \<Rightarrow> 'spec objectSet \<Rightarrow> GroupVersionResource
    \<Rightarrow> string \<times> 'spec APIObject \<Rightarrow> 'spec APICall list" where
  "upsertCalls deq oldObjects t p =
     (case objectAt oldObjects t (fst p) of
        None \<Rightarrow> [Create (snd p)]
      | Some old \<Rightarrow> if deq (ObjSpec old) (ObjSpec (snd p)) then []
                    else [Update ((snd p)\<lparr>ObjResourceVersion := ObjResourceVersion old\<rparr>)])"

definition deleteCalls ::
  "'spec objectSet \<Rightarrow> GroupVersionResource \<Rightarrow> string \<times> 'spec APIObject
    \<Rightarrow> 'spec APICall list" where
  "deleteCalls newObjects t p =
     (case objectAt newObjects t (fst p) of None \<Rightarrow> [Delete (snd p)] | Some x \<Rightarrow> [])"

definition plannedCalls ::
  "('spec \<Rightarrow> 'spec \<Rightarrow> bool) \<Rightarrow> 'spec objectSet \<Rightarrow> 'spec objectSet
    \<Rightarrow> 'spec APICall list" where
  "plannedCalls deq newObjects oldObjects =
     concat (map (\<lambda>(t, s). concat (map (upsertCalls deq oldObjects t) s)) newObjects) @
     concat (map (\<lambda>(t, s). concat (map (deleteCalls newObjects t) s)) oldObjects)"

definition runCalls ::
  "'spec APICall client \<Rightarrow> 'spec APICall list \<Rightarrow> 'spec APICall list \<times> string list
    \<Rightarrow> 'spec APICall list \<times> string list" where
  "runCalls client cs st = (fst st @ cs, snd st @ replayErrors client (fst st) cs)"

text \<open>The map that \<open>getExistingAPIObjects\<close> builds for one kind from a store.\<close>

definition listedSet ::
  "ConfigsEnv \<Rightarrow> 'spec APIObject list \<Rightarrow> GroupVersionResource \<Rightarrow> 'spec typedObjectSet" where
  "listedSet env store gvr =
     itemsLoop (filter (\<lambda>obj. ObjGVR obj = gvr \<and>
                  ObjLabels obj (LabelOwnerKind env) = Some (LabelOwnerKindTiltfile env)) store) []"

section \<open>Example inputs\<close>

definition exRestartOn :: RestartOnSpec where
  "exRestartOn = \<lparr>RestartOnFileWatches = [''fw1'', ''gone'', ''fw2''],
                   RestartOnUIButtons = [''b1'', ''b2'', ''nope'', ''b3'']\<rparr>"

definition exFileWatches :: "string \<rightharpoonup> FileWatch" where
  "exFileWatches =
     [''fw1'' \<mapsto> \<lparr>FileWatchName = ''fw1'', LastEventTime = 13,
                  FileEvents = [\<lparr>EventTime = 11, SeenFiles = [''a'']\<rparr>,
                                \<lparr>EventTime = 13, SeenFiles = [''b'']\<rparr>]\<rparr>,
      ''fw2'' \<mapsto> \<lparr>FileWatchName = ''fw2'', LastEventTime = 14,
                  FileEvents = [\<lparr>EventTime = 14, SeenFiles = [''b'', ''a'']\<rparr>,
                                \<lparr>EventTime = 9, SeenFiles = [''z'']\<rparr>]\<rparr>]"

definition exButton :: "string \<Rightarrow> time \<Rightarrow> UIButton" where
  "exButton n t = \<lparr>ButtonName = n, LastClickedAt = t\<rparr>"

definition exButtons :: "string \<rightharpoonup> UIButton" where
  "exButtons = [''b1'' \<mapsto> exButton ''b1'' 15, ''b2'' \<mapsto> exButton ''b2'' 19,
                ''b3'' \<mapsto> exButton ''b3'' 19]"

definition exState :: EngineState where
  "exState =
     \<lparr>TriggerQueue = [''a'', ''b'', ''c''],
      ManifestStateOf = [''a'' \<mapsto> \<lparr>TriggerReason = 64\<rparr>, ''b'' \<mapsto> \<lparr>TriggerReason = 32\<rparr>],
      UIResources = [''a'' \<mapsto> \<lparr>DisabledCount = 0\<rparr>, ''b'' \<mapsto> \<lparr>DisabledCount = 1\<rparr>]\<rparr>"

definition exQuote :: "string \<Rightarrow> string" where
  "exQuote s = CHR 0x22 # s @ [CHR 0x22]"

definition exDeepEqual :: "(string \<rightharpoonup> string) \<Rightarrow> (string \<rightharpoonup> string) \<Rightarrow> bool" where
  "exDeepEqual x y = (x = y)"

definition exUpsertOk :: "ConfigMap client" where
  "exUpsertOk calls obj = None"








definition exGVR :: "string \<Rightarrow> GroupVersionResource" where
  "exGVR r = \<lparr>Group = ''tilt.dev'', Version = ''v1alpha1'', Resource = r\<rparr>"

definition exEnv :: ConfigsEnv where
  "exEnv = \<lparr>LabelOwnerKind = ''owner-kind'', LabelOwnerKindTiltfile = ''Tiltfile'',
            KubernetesApplyGVR = exGVR ''kubernetesapplys'', ImageMapGVR = exGVR ''imagemaps'',
            FileWatchGVR = exGVR ''filewatches''\<rparr>"

definition exObj :: "string \<Rightarrow> string \<Rightarrow> bool \<Rightarrow> string \<Rightarrow> string \<Rightarrow> string APIObject" where
  "exObj r n isOwned rv sp =
     \<lparr>ObjGVR = exGVR r, ObjName = n,
      ObjLabels = (if isOwned then [''owner-kind'' \<mapsto> ''Tiltfile''] else Map.empty),
      ObjResourceVersion = rv, ObjSpec = sp\<rparr>"

definition exStore :: "string APIObject list" where
  "exStore =
     [exObj ''kubernetesapplys'' ''a'' True ''1'' ''x'',
      exObj ''kubernetesapplys'' ''b'' True ''2'' ''y'',
      exObj ''kubernetesapplys'' ''z'' False ''9'' ''q'',
      exObj ''filewatches'' ''f'' True ''3'' ''w'']"

definition exActual :: "string objectSet" where
  "exActual =
     [(exGVR ''kubernetesapplys'',
         [(''a'', exObj ''kubernetesapplys'' ''a'' True ''1'' ''x''),
          (''b'', exObj ''kubernetesapplys'' ''b'' True ''2'' ''y'')]),
      (exGVR ''imagemaps'', []),
      (exGVR ''filewatches'', [(''f'', exObj ''filewatches'' ''f'' True ''3'' ''w'')])]"

definition exDesired :: "string objectSet" where
  "exDesired =
     [(exGVR ''kubernetesapplys'',
         [(''a'', exObj ''kubernetesapplys'' ''a'' True [] ''x2''),
          (''c'', exObj ''kubernetesapplys'' ''c'' True [] ''v'')]),
      (exGVR ''imagemaps'', []),
      (exGVR ''filewatches'', [(''f'', exObj ''filewatches'' ''f'' True [] ''w'')])]"

definition exFailCreate :: "string APICall client" where
  "exFailCreate done c = (case c of Create obj \<Rightarrow> Some ''boom'' | Update obj \<Rightarrow> None | Delete obj \<Rightarrow> None)"

section \<open>Properties of the trigger computation\<close>

lemma startLoop_scanMax:
  "startLoop so buttons bns t lb =
     scanMax (\<lambda>b. StartAfter so \<le> LastClickedAt b) (List.map_filter buttons bns) t lb"
  by (induction bns arbitrary: t lb)
     (auto simp: After_def Before_def Let_def not_less split: option.splits)

lemma buttonLoop_scanMax:
  "buttonLoop buttons bns t lb = scanMax (\<lambda>b. True) (List.map_filter buttons bns) t lb"
  by (induction bns arbitrary: t lb)
     (auto simp: After_def Let_def split: option.splits)

lemma find_filter: "List.find Q (filter P xs) = List.find (\<lambda>x. P x \<and> Q x) xs"
  by (induction xs) auto

lemma scanMax_char:
 "scanMax ok bs t lb =
   (let vs = filter (\<lambda>b. ok b \<and> t < LastClickedAt b) bs in
    if vs = [] then (t, lb)
    else (Max (LastClickedAt ` set vs), List.find (\<lambda>b. LastClickedAt b = Max (LastClickedAt ` set vs)) vs))"
proof (induction bs arbitrary: t lb)
  case Nil
  then show ?case by simp
next
  case (Cons b rest)
  let ?P = "\<lambda>t b. ok b \<and> t < LastClickedAt b"
  show ?case
  proof (cases "?P t b")
    case False
    then have st: "scanMax ok (b # rest) t lb = scanMax ok rest t lb" by auto
    have f: "filter (?P t) (b # rest) = filter (?P t) rest" using False by auto
    show ?thesis by (simp only: st f Cons.IH[of t lb])
  next
    case True
    let ?c = "LastClickedAt b"
    have step: "scanMax ok (b # rest) t lb = scanMax ok rest ?c (Some b)"
      using True by simp
    let ?vs' = "filter (?P ?c) rest"
    let ?vs = "filter (?P t) rest"
    have sub: "?P ?c x \<Longrightarrow> ?P t x" for x
      using True by auto
    have hd: "filter (?P t) (b # rest) = b # ?vs" using True by simp
    show ?thesis
    proof (cases "?vs' = []")
      case True
      then have le: "\<forall>x\<in>set ?vs. LastClickedAt x \<le> ?c"
        by (auto simp: filter_empty_conv)
      have "Max (LastClickedAt ` set (b # ?vs)) = ?c"
        using le by (intro Max_eqI) auto
      then show ?thesis using step Cons.IH[of ?c "Some b"] True hd
        by (simp add: Let_def)
    next
      case False
        then obtain y where y: "y \<in> set ?vs'" by (cases ?vs') auto
        let ?M = "Max (LastClickedAt ` set ?vs')"
        have fin: "finite (LastClickedAt ` set ?vs')" "LastClickedAt ` set ?vs' \<noteq> {}"
          using y by auto
        have Mmem: "?M \<in> LastClickedAt ` set ?vs'" using Max_in[OF fin] .
        have cM: "?c < ?M"
          using Mmem by auto
        have ub: "\<forall>x\<in>set (b # ?vs). LastClickedAt x \<le> ?M"
        proof
          fix x assume x: "x \<in> set (b # ?vs)"
          show "LastClickedAt x \<le> ?M"
          proof (cases "x \<in> set ?vs'")
            case True
            then show ?thesis using fin by (intro Max_ge) auto
          next
            case False
            then have "LastClickedAt x \<le> ?c" using x by auto
            then show ?thesis using cM by simp
          qed
        qed
        have Mmem2: "?M \<in> LastClickedAt ` set (b # ?vs)"
          using Mmem sub by auto
        have Meq: "Max (LastClickedAt ` set (b # ?vs)) = ?M"
          using ub Mmem2 by (intro Max_eqI) auto
        have pred: "(?P t x \<and> LastClickedAt x = ?M) = (?P ?c x \<and> LastClickedAt x = ?M)" for x
          using cM True by auto
        have "List.find (\<lambda>x. LastClickedAt x = ?M) (b # ?vs) = List.find (\<lambda>x. LastClickedAt x = ?M) ?vs"
          using cM by simp
        also have "\<dots> = List.find (\<lambda>x. LastClickedAt x = ?M) ?vs'"
          by (simp only: find_filter pred)
        finally have feq: "List.find (\<lambda>x. LastClickedAt x = ?M) (b # ?vs) = List.find (\<lambda>x. LastClickedAt x = ?M) ?vs'" .
        show ?thesis using step Cons.IH[of ?c "Some b"] False Meq feq hd
          by (simp add: Let_def)
      qed
    qed
qed


text \<open>
  C8, as amended. A referenced button found in the map can be selected by LastStartEvent
  only if its click time is at or after \<open>startAfter\<close> and strictly after the zero time
  (the running maximum starts at the zero time and is replaced only by a strictly later
  click). If no referenced button has such a click, the result is the zero time and no
  button. Otherwise the result is the maximum of those click times, together with the
  first button in scan order that has it (a later button with the same click time does
  not replace the winner).
\<close>

theorem LastStartEvent_latest_valid_click:
  "LastStartEvent (Some so) buttons =
     (let vs = filter (\<lambda>b. StartAfter so \<le> LastClickedAt b \<and> zeroTime < LastClickedAt b)
                 (List.map_filter buttons (StartOnUIButtons so)) in
      if vs = [] then (zeroTime, None)
      else (Max (LastClickedAt ` set vs),
            List.find (\<lambda>b. LastClickedAt b = Max (LastClickedAt ` set vs)) vs))"
  by (simp add: LastStartEvent_def startLoop_scanMax scanMax_char)

text \<open>
  The theorem at a concrete input: \<open>b0\<close> is missing from the map, \<open>b1\<close> and \<open>b2\<close>
  were both clicked at 15, after \<open>startAfter = 10\<close>; the first of them wins.
\<close>

theorem LastStartEvent_latest_valid_click_witness:
  "LastStartEvent (Some \<lparr>StartOnUIButtons = [''b1'', ''b0'', ''b2''], StartAfter = 10\<rparr>)
     [''b1'' \<mapsto> \<lparr>ButtonName = ''b1'', LastClickedAt = 15\<rparr>,
      ''b2'' \<mapsto> \<lparr>ButtonName = ''b2'', LastClickedAt = 15\<rparr>]
   = (15, Some \<lparr>ButtonName = ''b1'', LastClickedAt = 15\<rparr>)"
  using LastStartEvent_latest_valid_click
    [of "\<lparr>StartOnUIButtons = [''b1'', ''b0'', ''b2''], StartAfter = 10\<rparr>"
        "[''b1'' \<mapsto> \<lparr>ButtonName = ''b1'', LastClickedAt = 15\<rparr>,
          ''b2'' \<mapsto> \<lparr>ButtonName = ''b2'', LastClickedAt = 15\<rparr>]"]
  by (simp add: zeroTime_def)

text \<open>
  C8 as the claim words it fails: with \<open>startAfter\<close> at the zero time, a button whose
  click time is the zero time (never clicked) has a click at or after \<open>startAfter\<close>,
  yet no button is returned.
\<close>

theorem LastStartEvent_zero_click_counterexample:
  "StartAfter \<lparr>StartOnUIButtons = [''b1''], StartAfter = 0\<rparr>
     \<le> LastClickedAt \<lparr>ButtonName = ''b1'', LastClickedAt = 0\<rparr> \<and>
   LastStartEvent (Some \<lparr>StartOnUIButtons = [''b1''], StartAfter = 0\<rparr>)
     [''b1'' \<mapsto> \<lparr>ButtonName = ''b1'', LastClickedAt = 0\<rparr>] = (zeroTime, None)"
  by (simp add: LastStartEvent_def zeroTime_def After_def Before_def)

lemma Max_insert2:
  "finite S \<Longrightarrow> Max (insert a (insert b S)) = Max (insert (max a b) S)"
  by (cases "S = {}") (simp_all add: max.assoc)

lemma fileWatchLoop_char:
  "fileWatchLoop fileWatches fwns cur =
     Max (insert cur (LastEventTime ` set (List.map_filter fileWatches fwns)))"
proof (induction fwns arbitrary: cur)
  case Nil
  show ?case by simp
next
  case (Cons fwn fwns)
  let ?S = "LastEventTime ` set (List.map_filter fileWatches fwns)"
  show ?case
  proof (cases "fileWatches fwn")
    case None
    then show ?thesis using Cons.IH by simp
  next
    case (Some fw)
    have step: "fileWatchLoop fileWatches (fwn # fwns) cur
                  = fileWatchLoop fileWatches fwns (max cur (LastEventTime fw))"
      using Some by (simp add: After_def Let_def max_def)
    have "Max (insert cur (insert (LastEventTime fw) ?S)) = Max (insert (max cur (LastEventTime fw)) ?S)"
      by (rule Max_insert2) simp
    then show ?thesis using step Some Cons.IH[of "max cur (LastEventTime fw)"] by simp
  qed
qed

lemma scanMax_fst:
  "fst (scanMax ok bs t lb) = Max (insert t (LastClickedAt ` {b \<in> set bs. ok b}))"
proof (induction bs arbitrary: t lb)
  case Nil
  show ?case by simp
next
  case (Cons b bs)
  let ?S = "LastClickedAt ` {x \<in> set bs. ok x}"
  have fin: "finite ?S" by simp
  show ?case
  proof (cases "ok b")
    case False
    then have "{x \<in> set (b # bs). ok x} = {x \<in> set bs. ok x}" by auto
    then show ?thesis using False Cons.IH[of t lb] by simp
  next
    case True
    then have S: "LastClickedAt ` {x \<in> set (b # bs). ok x} = insert (LastClickedAt b) ?S" by auto
    have step: "fst (scanMax ok (b # bs) t lb) = Max (insert (max t (LastClickedAt b)) ?S)"
      using True Cons.IH[of "LastClickedAt b" "Some b"] Cons.IH[of t lb]
      by (simp add: max_def)
    show ?thesis unfolding step S using Max_insert2[OF fin, of t "LastClickedAt b"] by simp
  qed
qed


lemma scanMax_attribution:
  fixes bs :: "UIButton list" and t :: time
  defines "r \<equiv> scanMax (\<lambda>b. True) bs t None"
  shows "(snd r \<noteq> None) = (\<exists>j<length bs. improves t bs j)"
    and "snd r = Some w \<Longrightarrow>
           \<exists>j<length bs. improves t bs j \<and> bs ! j = w \<and>
             (\<forall>j'<length bs. improves t bs j' \<longrightarrow> j' \<le> j)"
proof -
  let ?vs = "filter (\<lambda>b. t < LastClickedAt b) bs"
  let ?M = "Max (LastClickedAt ` set ?vs)"
  have r: "r = (if ?vs = [] then (t, None)
                else (?M, List.find (\<lambda>b. LastClickedAt b = ?M) ?vs))"
    unfolding r_def by (simp add: scanMax_char Let_def)
  have none: "?vs = [] \<Longrightarrow> \<not> (\<exists>j<length bs. improves t bs j)"
  proof
    assume e: "?vs = []" and "\<exists>j<length bs. improves t bs j"
    then obtain j where j: "j < length bs" "t < LastClickedAt (bs ! j)"
      by (auto simp: improves_def)
    then have "bs ! j \<in> set ?vs" by simp
    then show False using e by simp
  qed
  have some: "\<exists>j<length bs. improves t bs j \<and> Some (bs ! j) = List.find (\<lambda>b. LastClickedAt b = ?M) ?vs \<and>
                (\<forall>j'<length bs. improves t bs j' \<longrightarrow> j' \<le> j)" if ne: "?vs \<noteq> []"
  proof -
    have fin: "finite (LastClickedAt ` set ?vs)" "LastClickedAt ` set ?vs \<noteq> {}"
      using ne by (auto simp: filter_empty_conv)
    have Mmem: "?M \<in> LastClickedAt ` set ?vs" using Max_in[OF fin] .
    then have tM: "t < ?M" by auto
    have ub: "LastClickedAt (bs ! k) \<le> ?M" if "k < length bs" for k
    proof (cases "t < LastClickedAt (bs ! k)")
      case True
      then have "bs ! k \<in> set ?vs" using that by simp
      then show ?thesis using fin by (intro Max_ge) auto
    next
      case False
      then show ?thesis using tM by simp
    qed
    from Mmem obtain x where "x \<in> set bs" "LastClickedAt x = ?M" by auto
    then have "List.find (\<lambda>b. LastClickedAt b = ?M) bs \<noteq> None"
      by (auto simp: find_None_iff)
    then obtain w where w: "List.find (\<lambda>b. LastClickedAt b = ?M) bs = Some w" by auto
    then obtain i where i: "i < length bs" "LastClickedAt (bs ! i) = ?M" "w = bs ! i"
      "\<forall>k<i. LastClickedAt (bs ! k) \<noteq> ?M"
      unfolding find_Some_iff by blast
    have "(\<lambda>x. t < LastClickedAt x \<and> LastClickedAt x = ?M) = (\<lambda>x. LastClickedAt x = ?M)"
      using tM by auto
    then have feq: "List.find (\<lambda>b. LastClickedAt b = ?M) ?vs = List.find (\<lambda>b. LastClickedAt b = ?M) bs"
      unfolding find_filter by (rule arg_cong2[where f = List.find]) simp
    have imp: "improves t bs i"
      unfolding improves_def
    proof (intro conjI allI impI)
      show "t < LastClickedAt (bs ! i)" using i tM by simp
    next
      fix k assume k: "k < i"
      then have "LastClickedAt (bs ! k) \<le> ?M" using ub[of k] i(1) by simp
      moreover have "LastClickedAt (bs ! k) \<noteq> ?M" using i(4) k by blast
      ultimately show "LastClickedAt (bs ! k) < LastClickedAt (bs ! i)" using i(2) by simp
    qed
    have last: "j' \<le> i" if "j' < length bs" "improves t bs j'" for j'
    proof (rule ccontr)
      assume "\<not> j' \<le> i"
      then have "i < j'" by simp
      then have "LastClickedAt (bs ! i) < LastClickedAt (bs ! j')"
        using that(2) by (simp add: improves_def)
      then show False using ub[OF that(1)] i(2) by simp
    qed
    show ?thesis
      using i(1) imp last w i(3) feq by (intro exI[of _ i]) auto
  qed
  show "(snd r \<noteq> None) = (\<exists>j<length bs. improves t bs j)"
  proof (cases "?vs = []")
    case True
    then show ?thesis using r none by simp
  next
    case False
    from some[OF False] obtain j where "j < length bs" "improves t bs j"
      "Some (bs ! j) = List.find (\<lambda>b. LastClickedAt b = ?M) ?vs" by blast
    then show ?thesis using r False by (metis option.distinct(1) snd_conv)
  qed
  show "\<exists>j<length bs. improves t bs j \<and> bs ! j = w \<and>
          (\<forall>j'<length bs. improves t bs j' \<longrightarrow> j' \<le> j)" if sw: "snd r = Some w"
  proof (cases "?vs = []")
    case True
    then show ?thesis using r sw by simp
  next
    case False
    from some[OF False] obtain j where j: "j < length bs" "improves t bs j"
      "Some (bs ! j) = List.find (\<lambda>b. LastClickedAt b = ?M) ?vs"
      "\<forall>j'<length bs. improves t bs j' \<longrightarrow> j' \<le> j" by blast
    have "snd r = List.find (\<lambda>b. LastClickedAt b = ?M) ?vs" using r False by simp
    then have "Some (bs ! j) = Some w" using j(3) sw by (simp only:)
    then have "bs ! j = w" by simp
    then show ?thesis using j by blast
  qed
qed

text \<open>
  C4. For a RestartOnSpec, LastRestartEvent returns the maximum of the zero time (where the
  running maximum starts), the last event times of the referenced file-watchers and the
  click times of the referenced buttons. The returned button is present exactly when some
  scan step over the buttons strictly improves the running maximum, that is, when some
  button's click is strictly after the file-watch maximum and after every click scanned
  before it; the button returned is the one of the last such step. File-watchers never
  set the button: if no click is strictly after the file-watch maximum, no button is
  returned. When something is referenced and no referenced time is before the zero time,
  the time returned is simply the maximum of the referenced times.
\<close>

theorem LastRestartEvent_max_and_attribution:
  "fst (LastRestartEvent (Some ro) fileWatches buttons)
     = Max (insert zeroTime
         (LastEventTime ` set (referencedFileWatches ro fileWatches) \<union>
          LastClickedAt ` set (referencedButtons ro buttons))) \<and>
   ((snd (LastRestartEvent (Some ro) fileWatches buttons) \<noteq> None)
     = (\<exists>j<length (referencedButtons ro buttons).
          improves (fileWatchMax ro fileWatches) (referencedButtons ro buttons) j)) \<and>
   (\<forall>w. snd (LastRestartEvent (Some ro) fileWatches buttons) = Some w \<longrightarrow>
      (\<exists>j<length (referencedButtons ro buttons).
          improves (fileWatchMax ro fileWatches) (referencedButtons ro buttons) j \<and>
          referencedButtons ro buttons ! j = w \<and>
          (\<forall>j'<length (referencedButtons ro buttons).
             improves (fileWatchMax ro fileWatches) (referencedButtons ro buttons) j' \<longrightarrow> j' \<le> j))) \<and>
   ((\<forall>b\<in>set (referencedButtons ro buttons). LastClickedAt b \<le> fileWatchMax ro fileWatches)
      \<longrightarrow> snd (LastRestartEvent (Some ro) fileWatches buttons) = None) \<and>
   (LastEventTime ` set (referencedFileWatches ro fileWatches) \<union>
      LastClickedAt ` set (referencedButtons ro buttons) \<noteq> {} \<and>
    (\<forall>x\<in>LastEventTime ` set (referencedFileWatches ro fileWatches) \<union>
           LastClickedAt ` set (referencedButtons ro buttons). zeroTime \<le> x)
      \<longrightarrow> fst (LastRestartEvent (Some ro) fileWatches buttons)
            = Max (LastEventTime ` set (referencedFileWatches ro fileWatches) \<union>
                   LastClickedAt ` set (referencedButtons ro buttons)))"
proof -
  let ?bs = "referencedButtons ro buttons"
  let ?m = "fileWatchMax ro fileWatches"
  let ?S = "LastEventTime ` set (referencedFileWatches ro fileWatches)"
  have r: "LastRestartEvent (Some ro) fileWatches buttons = scanMax (\<lambda>b. True) ?bs ?m None"
    by (simp add: LastRestartEvent_def buttonLoop_scanMax fileWatchLoop_char
        referencedButtons_def fileWatchMax_def referencedFileWatches_def)
  have "Max (insert ?m (LastClickedAt ` set ?bs)) = Max (insert zeroTime (?S \<union> LastClickedAt ` set ?bs))"
  proof (cases "set ?bs = {}")
    case True
    then show ?thesis by (simp add: fileWatchMax_def)
  next
    case False
    have "Max (insert ?m (LastClickedAt ` set ?bs)) = max (Max (insert zeroTime ?S)) (Max (LastClickedAt ` set ?bs))"
      using False by (simp add: fileWatchMax_def)
    also have "\<dots> = Max (insert zeroTime ?S \<union> LastClickedAt ` set ?bs)"
      using False by (intro Max_Un[symmetric]) auto
    finally show ?thesis by simp
  qed
  then have c1: "fst (LastRestartEvent (Some ro) fileWatches buttons)
     = Max (insert zeroTime (?S \<union> LastClickedAt ` set ?bs))"
    unfolding r by (simp add: scanMax_fst)
  have c2: "(snd (LastRestartEvent (Some ro) fileWatches buttons) \<noteq> None)
     = (\<exists>j<length ?bs. improves ?m ?bs j)"
    unfolding r by (rule scanMax_attribution(1))
  have c3: "\<forall>w. snd (LastRestartEvent (Some ro) fileWatches buttons) = Some w \<longrightarrow>
      (\<exists>j<length ?bs. improves ?m ?bs j \<and> ?bs ! j = w \<and>
          (\<forall>j'<length ?bs. improves ?m ?bs j' \<longrightarrow> j' \<le> j))"
    unfolding r using scanMax_attribution(2) by blast
  have c4: "(\<forall>b\<in>set ?bs. LastClickedAt b \<le> ?m)
      \<longrightarrow> snd (LastRestartEvent (Some ro) fileWatches buttons) = None"
  proof
    assume a: "\<forall>b\<in>set ?bs. LastClickedAt b \<le> ?m"
    have "\<not> (\<exists>j<length ?bs. improves ?m ?bs j)"
    proof
      assume "\<exists>j<length ?bs. improves ?m ?bs j"
      then obtain j where j: "j < length ?bs" "?m < LastClickedAt (?bs ! j)"
        by (auto simp: improves_def)
      then have "LastClickedAt (?bs ! j) \<le> ?m" using a nth_mem by blast
      then show False using j(2) by simp
    qed
    then show "snd (LastRestartEvent (Some ro) fileWatches buttons) = None"
      using c2 by blast
  qed
  have c5: "?S \<union> LastClickedAt ` set ?bs \<noteq> {} \<and>
      (\<forall>x\<in>?S \<union> LastClickedAt ` set ?bs. zeroTime \<le> x)
      \<longrightarrow> fst (LastRestartEvent (Some ro) fileWatches buttons)
            = Max (?S \<union> LastClickedAt ` set ?bs)"
  proof
    let ?U = "?S \<union> LastClickedAt ` set ?bs"
    assume a: "?U \<noteq> {} \<and> (\<forall>x\<in>?U. zeroTime \<le> x)"
    have fin: "finite ?U" by simp
    have "Max ?U \<in> ?U" using fin a by (intro Max_in) simp_all
    then have "zeroTime \<le> Max ?U" using a by blast
    then have "Max (insert zeroTime ?U) = Max ?U" using fin a by (simp add: max.absorb2)
    then show "fst (LastRestartEvent (Some ro) fileWatches buttons) = Max ?U"
      using c1 by simp
  qed
  show ?thesis using c1 c2 c3 c4 c5 by blast
qed

text \<open>
  The theorem at a concrete input: one file-watcher is missing, the others end at 13 and
  14; the buttons were clicked at 15, 19 and 19, and the second one is attributed.
\<close>

theorem LastRestartEvent_max_and_attribution_witness:
  "snd (LastRestartEvent (Some exRestartOn) exFileWatches exButtons) = Some (exButton ''b2'' 19) \<and>
   (\<exists>j<length (referencedButtons exRestartOn exButtons).
      improves (fileWatchMax exRestartOn exFileWatches) (referencedButtons exRestartOn exButtons) j \<and>
      referencedButtons exRestartOn exButtons ! j = exButton ''b2'' 19) \<and>
   fst (LastRestartEvent (Some exRestartOn) exFileWatches exButtons) = 19"
proof -
  have e: "LastRestartEvent (Some exRestartOn) exFileWatches exButtons
             = (19, Some (exButton ''b2'' 19))"
    by (simp add: LastRestartEvent_def exRestartOn_def exFileWatches_def exButtons_def
        exButton_def After_def zeroTime_def)
  from LastRestartEvent_max_and_attribution [of exRestartOn exFileWatches exButtons]
  have "\<forall>w. snd (LastRestartEvent (Some exRestartOn) exFileWatches exButtons) = Some w \<longrightarrow>
      (\<exists>j<length (referencedButtons exRestartOn exButtons).
          improves (fileWatchMax exRestartOn exFileWatches) (referencedButtons exRestartOn exButtons) j \<and>
          referencedButtons exRestartOn exButtons ! j = w \<and>
          (\<forall>j'<length (referencedButtons exRestartOn exButtons).
             improves (fileWatchMax exRestartOn exFileWatches)
               (referencedButtons exRestartOn exButtons) j' \<longrightarrow> j' \<le> j))"
    by (elim conjE)
  then show ?thesis using e by auto
qed

lemma eventLoop_char:
  "n \<le> length events \<Longrightarrow>
   eventLoop events n lastBuild acc =
     acc @ concat (map SeenFiles (filter (\<lambda>e. lastBuild < EventTime e) (rev (take n events))))"
proof (induction n arbitrary: acc)
  case 0
  show ?case by simp
next
  case (Suc i)
  then have i: "i < length events" by simp
  have t: "rev (take (Suc i) events) = events ! i # rev (take i events)"
    using i by (simp add: take_Suc_conv_app_nth)
  show ?case using Suc.IH i unfolding t by (simp add: After_def Let_def)
qed

lemma filesLoop_char:
  "filesLoop fileWatches fwns lastBuild acc =
     acc @ concat (map (\<lambda>fw. concat (map SeenFiles
                      (filter (\<lambda>e. lastBuild < EventTime e) (rev (FileEvents fw)))))
                   (List.map_filter fileWatches fwns))"
  by (induction fwns arbitrary: acc) (auto simp: eventLoop_char split: option.splits)

text \<open>
  C7. For a RestartOnSpec, FilesChanged returns the sorted list, without duplicates, of the
  set of all files seen by an event strictly after \<open>lastBuild\<close>, over every event in the
  log of every referenced file-watcher the map holds. A referenced file-watcher that the
  map does not hold adds nothing, and the call still returns.
\<close>

theorem FilesChanged_sorted_union:
  "FilesChanged (Some ro) fileWatches lastBuild =
     Some (sorted_list_of_set
       (\<Union>fw \<in> set (referencedFileWatches ro fileWatches).
          \<Union>e \<in> {e \<in> set (FileEvents fw). lastBuild < EventTime e}. set (SeenFiles e)))"
proof -
  have "set (filesLoop fileWatches (RestartOnFileWatches ro) lastBuild []) =
     (\<Union>fw \<in> set (referencedFileWatches ro fileWatches).
          \<Union>e \<in> {e \<in> set (FileEvents fw). lastBuild < EventTime e}. set (SeenFiles e))"
    by (auto simp: filesLoop_char referencedFileWatches_def)
  then show ?thesis
    by (simp add: FilesChanged_def DedupedAndSorted_def sorted_list_of_set_sort_remdups[symmetric])
qed

text \<open>
  The theorem at a concrete input: \<open>gone\<close> is missing from the map; the log of \<open>fw2\<close>
  is not in time order, and its first event counts although a later entry is older than
  \<open>lastBuild = 12\<close>.
\<close>

theorem FilesChanged_sorted_union_witness:
  "FilesChanged (Some exRestartOn) exFileWatches 12 = Some [''a'', ''b''] \<and>
   sorted_list_of_set
     (\<Union>fw \<in> set (referencedFileWatches exRestartOn exFileWatches).
        \<Union>e \<in> {e \<in> set (FileEvents fw). 12 < EventTime e}. set (SeenFiles e)) = [''a'', ''b'']"
proof -
  have e: "FilesChanged (Some exRestartOn) exFileWatches 12 = Some [''a'', ''b'']"
    by (simp add: FilesChanged_def DedupedAndSorted_def exRestartOn_def exFileWatches_def
        After_def numeral_2_eq_2 numeral_3_eq_3)
  show ?thesis
    using FilesChanged_sorted_union [of exRestartOn exFileWatches 12] e by simp
qed

text \<open>
  C10. With a nil StartOnSpec, LastStartEvent returns the zero time and no button, whatever
  the button map holds; with a nil RestartOnSpec, LastRestartEvent returns the zero time and
  no button, whatever the file-watch map and the button map hold.
\<close>

theorem nil_spec_zero_absent:
  "LastStartEvent None buttons = (zeroTime, None) \<and>
   LastRestartEvent None fileWatches buttons = (zeroTime, None)"
  by (simp add: LastStartEvent_def LastRestartEvent_def)

section \<open>Properties of the trigger-queue subscriber\<close>

lemma digitChar_inj: "a < 10 \<Longrightarrow> b < 10 \<Longrightarrow> digitChar a = digitChar b \<Longrightarrow> a = b"
proof -
  assume a: "a < 10" and b: "b < 10" and e: "digitChar a = digitChar b"
  have d: "distinct ''0123456789''" by simp
  have "(''0123456789'' ! a = ''0123456789'' ! b) = (a = b)"
    using a b by (intro nth_eq_iff_index_eq[OF d]) simp_all
  then show ?thesis using e by (simp add: digitChar_def)
qed

lemma showNat_nonempty: "showNat n \<noteq> []"
  by (subst showNat.simps) simp

lemma showNat_inj: "showNat n = showNat m \<Longrightarrow> n = m"
proof (induction n arbitrary: m rule: showNat.induct)
  case (1 n)
  show ?case
  proof (cases "n < 10")
    case True
    show ?thesis
    proof (cases "m < 10")
      case m: True
      then show ?thesis using True "1.prems" digitChar_inj
        by (simp add: showNat.simps[of n] showNat.simps[of m])
    next
      case False
      then show ?thesis using True "1.prems" showNat_nonempty[of "m div 10"]
        by (simp add: showNat.simps[of n] showNat.simps[of m])
    qed
  next
    case False
    show ?thesis
    proof (cases "m < 10")
      case True
      then show ?thesis using False "1.prems" showNat_nonempty[of "n div 10"]
        by (simp add: showNat.simps[of n] showNat.simps[of m])
    next
      case m: False
      from "1.prems" False m
      have e: "showNat (n div 10) = showNat (m div 10)" "digitChar (n mod 10) = digitChar (m mod 10)"
        by (simp_all add: showNat.simps[of n] showNat.simps[of m])
      have "n div 10 = m div 10" using "1.IH"[OF False e(1)] .
      moreover have "n mod 10 = m mod 10" using e(2) by (intro digitChar_inj) simp_all
      ultimately show ?thesis by (metis div_mult_mod_eq)
    qed
  qed
qed

lemma name_key_inj: "showNat i @ ''-name'' = showNat j @ ''-name'' \<Longrightarrow> i = j"
  using showNat_inj by simp

lemma reason_key_inj: "showNat i @ ''-reason-code'' = showNat j @ ''-reason-code'' \<Longrightarrow> i = j"
  using showNat_inj by simp

lemma name_key_neq_reason_key: "xs @ ''-name'' \<noteq> ys @ ''-reason-code''"
proof
  assume "xs @ ''-name'' = ys @ ''-reason-code''"
  then have "rev (xs @ ''-name'') = rev (ys @ ''-reason-code'')" by simp
  then show False by simp
qed

lemma sprintfD_int: "sprintfD (int i) = showNat i"
  by (simp add: sprintfD_def)

lemma fromStateLoop_other:
  "(\<forall>j<length vs. k \<noteq> showNat (i + j) @ ''-name'' \<and> k \<noteq> showNat (i + j) @ ''-reason-code'')
    \<Longrightarrow> fromStateLoop state i vs data k = data k"
proof (induction vs arbitrary: i data)
  case Nil
  show ?case by simp
next
  case (Cons v vs)
  have k0: "k \<noteq> showNat i @ ''-name''" "k \<noteq> showNat i @ ''-reason-code''"
    using Cons.prems[rule_format, of 0] by simp_all
  have rest: "\<forall>j<length vs. k \<noteq> showNat (Suc i + j) @ ''-name'' \<and> k \<noteq> showNat (Suc i + j) @ ''-reason-code''"
    using Cons.prems by fastforce
  show ?case
    using Cons.IH[OF rest] k0 by (simp add: sprintfD_int Let_def split: option.splits)
qed

lemma fromStateLoop_name:
  "j < length vs \<Longrightarrow> fromStateLoop state i vs data (showNat (i + j) @ ''-name'') = Some (vs ! j)"
proof (induction vs arbitrary: i j data)
  case Nil
  then show ?case by simp
next
  case (Cons v vs)
  show ?case
  proof (cases j)
    case 0
    have "\<forall>j'<length vs. showNat i @ ''-name'' \<noteq> showNat (Suc i + j') @ ''-name'' \<and>
             showNat i @ ''-name'' \<noteq> showNat (Suc i + j') @ ''-reason-code''"
      using name_key_inj name_key_neq_reason_key by fastforce
    from fromStateLoop_other[OF this] show ?thesis using 0
      by (simp add: sprintfD_int Let_def name_key_neq_reason_key split: option.splits)
  next
    case (Suc j')
    then have "j' < length vs" using Cons.prems by simp
    from Cons.IH[OF this, of "Suc i"] show ?thesis using Suc
      by (simp add: Let_def split: option.splits)
  qed
qed

lemma fromStateLoop_reason:
  "j < length vs \<Longrightarrow>
   fromStateLoop state i vs data (showNat (i + j) @ ''-reason-code'') =
     (case ManifestStateOf state (vs ! j) of
        None \<Rightarrow> data (showNat (i + j) @ ''-reason-code'')
      | Some ms \<Rightarrow> Some (sprintfD (TriggerReason ms)))"
proof (induction vs arbitrary: i j data)
  case Nil
  then show ?case by simp
next
  case (Cons v vs)
  show ?case
  proof (cases j)
    case 0
    have "\<forall>j'<length vs. showNat i @ ''-reason-code'' \<noteq> showNat (Suc i + j') @ ''-name'' \<and>
             showNat i @ ''-reason-code'' \<noteq> showNat (Suc i + j') @ ''-reason-code''"
      using reason_key_inj name_key_neq_reason_key by (metis Suc_n_not_le_n le_add1 add_Suc)
    from fromStateLoop_other[OF this] show ?thesis using 0 name_key_neq_reason_key[of "showNat i" "showNat i"]
      by (auto simp add: sprintfD_int Let_def split: option.splits)
  next
    case (Suc j')
    then have j': "j' < length vs" using Cons.prems by simp
    have ne: "showNat (Suc (i + j')) @ ''-reason-code'' \<noteq> showNat i @ ''-name''"
         "showNat (Suc (i + j')) @ ''-reason-code'' \<noteq> showNat i @ ''-reason-code''"
      using reason_key_inj name_key_neq_reason_key by (metis, fastforce)
    from Cons.IH[OF j', of "Suc i"] show ?thesis using Suc ne
      by (simp add: sprintfD_int Let_def split: option.splits)
  qed
qed

text \<open>
  C3, as amended. The published document has the given name. For each position \<open>i\<close> of
  the trigger queue, counted from 0, its data maps the field \<open>{i}-name\<close> to the manifest
  name at that position and, when that manifest has a state, the field
  \<open>{i}-reason-code\<close> to the decimal trigger reason of that state; when the manifest has
  no state there is no reason field for the position. The data has no other field, so the
  positions are contiguous from 0 to the length of the queue.
\<close>

theorem fromState_fields:
  "ConfigMapName (fromState n st) = n \<and>
   (\<forall>i<length (TriggerQueue st).
      Data (fromState n st) (sprintfD (int i) @ ''-name'') = Some (TriggerQueue st ! i) \<and>
      Data (fromState n st) (sprintfD (int i) @ ''-reason-code'') =
        map_option (\<lambda>ms. sprintfD (TriggerReason ms)) (ManifestStateOf st (TriggerQueue st ! i))) \<and>
   dom (Data (fromState n st)) =
     (\<lambda>i. sprintfD (int i) @ ''-name'') ` {i. i < length (TriggerQueue st)} \<union>
     (\<lambda>i. sprintfD (int i) @ ''-reason-code'') `
        {i. i < length (TriggerQueue st) \<and> ManifestStateOf st (TriggerQueue st ! i) \<noteq> None}"
proof -
  let ?q = "TriggerQueue st"
  let ?D = "fromStateLoop st 0 ?q Map.empty"
  have D: "Data (fromState n st) = ?D" by (simp add: fromState_def)
  have nm: "?D (sprintfD (int i) @ ''-name'') = Some (?q ! i)" if "i < length ?q" for i
    using fromStateLoop_name[OF that, of st 0 Map.empty] by (simp add: sprintfD_int)
  have rs: "?D (sprintfD (int i) @ ''-reason-code'') =
        map_option (\<lambda>ms. sprintfD (TriggerReason ms)) (ManifestStateOf st (?q ! i))"
    if "i < length ?q" for i
    using fromStateLoop_reason[OF that, of st 0 Map.empty]
    by (simp add: sprintfD_int split: option.splits)
  have oth: "?D k = None"
    if "\<forall>j<length ?q. k \<noteq> sprintfD (int j) @ ''-name'' \<and> k \<noteq> sprintfD (int j) @ ''-reason-code''" for k
    using fromStateLoop_other[of ?q k 0 st Map.empty] that by (simp add: sprintfD_int)
  have "dom ?D =
     (\<lambda>i. sprintfD (int i) @ ''-name'') ` {i. i < length ?q} \<union>
     (\<lambda>i. sprintfD (int i) @ ''-reason-code'') `
        {i. i < length ?q \<and> ManifestStateOf st (?q ! i) \<noteq> None}" (is "_ = ?N \<union> ?R")
  proof (intro set_eqI iffI)
    fix k assume "k \<in> dom ?D"
    then have k: "?D k \<noteq> None" by auto
    have "\<exists>j<length ?q. k = sprintfD (int j) @ ''-name'' \<or> k = sprintfD (int j) @ ''-reason-code''"
    proof (rule ccontr)
      assume "\<not> (\<exists>j<length ?q. k = sprintfD (int j) @ ''-name'' \<or> k = sprintfD (int j) @ ''-reason-code'')"
      then have "\<forall>j<length ?q. k \<noteq> sprintfD (int j) @ ''-name'' \<and> k \<noteq> sprintfD (int j) @ ''-reason-code''"
        by blast
      from oth[OF this] k show False by simp
    qed
    then obtain j where j: "j < length ?q"
        "k = sprintfD (int j) @ ''-name'' \<or> k = sprintfD (int j) @ ''-reason-code''"
      by blast
    from j(2) show "k \<in> ?N \<union> ?R"
    proof
      assume "k = sprintfD (int j) @ ''-name''"
      then show ?thesis using j(1) by blast
    next
      assume e: "k = sprintfD (int j) @ ''-reason-code''"
      then have "ManifestStateOf st (?q ! j) \<noteq> None" using k rs[OF j(1)] by auto
      then show ?thesis using e j(1) by blast
    qed
  next
    fix k assume "k \<in> ?N \<union> ?R"
    then show "k \<in> dom ?D" using nm rs by auto
  qed
  then show ?thesis using nm rs D by (simp add: fromState_def)
qed

text \<open>
  The theorem at positions 1 and 2 of the queue \<open>a, b, c\<close>, where \<open>c\<close> has no state.
\<close>

theorem fromState_fields_witness:
  "(2::nat) < length (TriggerQueue exState) \<and>
   Data (fromState ''tq'' exState) ''1-name'' = Some ''b'' \<and>
   Data (fromState ''tq'' exState) ''1-reason-code'' = Some ''32'' \<and>
   Data (fromState ''tq'' exState) ''2-name'' = Some ''c'' \<and>
   Data (fromState ''tq'' exState) ''2-reason-code'' = None"
proof -
  have k: "sprintfD (int 1) = ''1''" "sprintfD (int 2) = ''2''" "sprintfD 32 = ''32''"
    by (simp_all add: sprintfD_def showNat.simps digitChar_def)
  have l: "(1::nat) < length (TriggerQueue exState)" "(2::nat) < length (TriggerQueue exState)"
    by (simp_all add: exState_def)
  from fromState_fields [of "''tq''" exState]
  have a: "\<forall>i<length (TriggerQueue exState).
      Data (fromState ''tq'' exState) (sprintfD (int i) @ ''-name'') = Some (TriggerQueue exState ! i) \<and>
      Data (fromState ''tq'' exState) (sprintfD (int i) @ ''-reason-code'') =
        map_option (\<lambda>ms. sprintfD (TriggerReason ms)) (ManifestStateOf exState (TriggerQueue exState ! i))"
    by (elim conjE)
  from a[rule_format, OF l(1)] a[rule_format, OF l(2)] l show ?thesis
    unfolding k by (simp add: exState_def k)
qed

text \<open>
  C3 as the claim words it fails: the manifest at position 0 has a state, and the data has
  no field \<open>0-reasonCode\<close>; the reason is under \<open>0-reason-code\<close>. The manifest at
  position 2 has no state, and the data has its name but no reason field for it.
\<close>

theorem fromState_reasonCode_counterexample:
  "ManifestStateOf exState (TriggerQueue exState ! 0) = Some \<lparr>TriggerReason = 64\<rparr> \<and>
   Data (fromState ''tq'' exState) ''0-reasonCode'' = None \<and>
   Data (fromState ''tq'' exState) ''0-reason-code'' = Some ''64'' \<and>
   TriggerQueue exState ! 2 = ''c'' \<and>
   Data (fromState ''tq'' exState) ''2-name'' = Some ''c'' \<and>
   Data (fromState ''tq'' exState) ''2-reasonCode'' = None \<and>
   Data (fromState ''tq'' exState) ''2-reason-code'' = None"
  by (simp add: fromState_def exState_def sprintfD_def showNat.simps
      digitChar_def)

lemma removeLoop_concat:
  "removeLoop quote state mns =
     concat (map (\<lambda>mn. if isDisabled state mn
        then [LogAction mn (''unqueue:'' @ mn) InfoLvl
                (''Will not build resource '' @ quote mn @ '': it is disabled''),
              RemoveFromTriggerQueueAction mn]
        else []) mns)"
  by (induction mns) (auto simp: isDisabled_def Let_def split: option.splits)

lemma removeLoop_removals:
  "length (filter (isRemovalOf mn) (removeLoop quote state mns)) =
     (if isDisabled state mn then count_list mns mn else 0)"
  by (induction mns) (auto simp: isDisabled_def isRemovalOf_def Let_def split: option.splits)

lemma removeLoop_logs:
  "length (filter (isInfoLogOf mn) (removeLoop quote state mns)) =
     (if isDisabled state mn then count_list mns mn else 0)"
  by (induction mns) (auto simp: isDisabled_def Let_def split: option.splits)

text \<open>
  C9. In one pass, every queue entry whose owning resource is disabled (it exists and its
  disabled count is positive) makes the subscriber dispatch one info-level log action
  attributed to that entry followed by one removal action for it, and every other entry
  makes it dispatch nothing. So for a manifest name, the number of removal actions and the
  number of info log actions both equal the number of its queue entries when its resource
  is disabled, and are zero when it is not. A pass whose change summary is not log-only
  dispatches exactly these actions.
\<close>

theorem removeDisabledManifests_one_each:
  "removeDisabledManifests quote state =
     concat (map (\<lambda>mn. if isDisabled state mn
        then [LogAction mn (''unqueue:'' @ mn) InfoLvl
                (''Will not build resource '' @ quote mn @ '': it is disabled''),
              RemoveFromTriggerQueueAction mn]
        else []) (TriggerQueue state)) \<and>
   length (filter (isRemovalOf mn) (removeDisabledManifests quote state)) =
     (if isDisabled state mn then count_list (TriggerQueue state) mn else 0) \<and>
   length (filter (isInfoLogOf mn) (removeDisabledManifests quote state)) =
     (if isDisabled state mn then count_list (TriggerQueue state) mn else 0) \<and>
   dispatched (OnChange quote n deq cl s calls state False) = removeDisabledManifests quote state"
  by (simp add: removeDisabledManifests_def removeLoop_concat[symmetric] removeLoop_removals
      removeLoop_logs OnChange_def Let_def split: option.splits)

text \<open>
  The theorem on the queue \<open>a, b, c\<close> where only the resource of \<open>b\<close> is disabled.
\<close>

theorem removeDisabledManifests_one_each_witness:
  "removeDisabledManifests exQuote exState =
     [LogAction ''b'' ''unqueue:b'' InfoLvl
        (''Will not build resource '' @ exQuote ''b'' @ '': it is disabled''),
      RemoveFromTriggerQueueAction ''b''] \<and>
   length (filter (isRemovalOf ''b'') (removeDisabledManifests exQuote exState)) = 1 \<and>
   length (filter (isRemovalOf ''a'') (removeDisabledManifests exQuote exState)) = 0"
proof -
  have d: "isDisabled exState ''b''" "\<not> isDisabled exState ''a''" "\<not> isDisabled exState ''c''"
    by (simp_all add: isDisabled_def exState_def)
  have q: "TriggerQueue exState = [''a'', ''b'', ''c'']" by (simp add: exState_def)
  have c: "count_list [''a'', ''b'', ''c''] ''b'' = 1" by simp
  note tb = removeDisabledManifests_one_each
         [of exQuote exState "''b''" "''tq''" exDeepEqual exUpsertOk NewTriggerQueueSubscriber "[]"]
  note ta = removeDisabledManifests_one_each
         [of exQuote exState "''a''" "''tq''" exDeepEqual exUpsertOk NewTriggerQueueSubscriber "[]"]
  have 1: "removeDisabledManifests exQuote exState =
     [LogAction ''b'' ''unqueue:b'' InfoLvl
        (''Will not build resource '' @ exQuote ''b'' @ '': it is disabled''),
      RemoveFromTriggerQueueAction ''b'']"
    using tb[THEN conjunct1] unfolding q by (simp add: d)
  have 2: "length (filter (isRemovalOf ''b'') (removeDisabledManifests exQuote exState)) = 1"
    using tb[THEN conjunct2, THEN conjunct1] unfolding q by (simp only: d c if_True)
  have 3: "length (filter (isRemovalOf ''a'') (removeDisabledManifests exQuote exState)) = 0"
    using ta[THEN conjunct2, THEN conjunct1] by (simp only: d if_False)
  show ?thesis by (rule conjI[OF 1 conjI[OF 2 3]])
qed

text \<open>
  C6. If the subscriber has a last published ConfigMap and the data computed in this pass
  compares equal to it, the pass makes no call to the client, returns no error and leaves
  the subscriber as it was. Hence, for the same state on two consecutive passes: a pass
  that returned no error is followed by a pass that makes no further call (the comparison
  taken to hold of the data with itself), and a new subscriber's first pass makes exactly
  one call; so publishing the same queue twice makes one upsert, not two.
\<close>

theorem OnChange_suppresses_identical:
  "(\<forall>lu. lastUpdate s = Some lu \<and> deq (Data (fromState n st)) (Data lu) \<longrightarrow>
      OnChange quote n deq cl s calls st isLogOnly
        = \<lparr>err = None, subscriber = s, upserts = calls,
           dispatched = (if isLogOnly then [] else removeDisabledManifests quote st)\<rparr>) \<and>
   (err (OnChange quote n deq cl s calls st False) = None \<and>
    deq (Data (fromState n st)) (Data (fromState n st)) \<longrightarrow>
      upserts (OnChange quote n deq cl
                 (subscriber (OnChange quote n deq cl s calls st False))
                 (upserts (OnChange quote n deq cl s calls st False))
                 st False)
        = upserts (OnChange quote n deq cl s calls st False)) \<and>
   upserts (OnChange quote n deq cl NewTriggerQueueSubscriber [] st False) = [fromState n st]"
  by (auto simp: OnChange_def Let_def NewTriggerQueueSubscriber_def fromState_def
      split: option.splits)

text \<open>
  The theorem for a client that accepts every call: two passes over the same state, starting
  from a new subscriber, make one call in all.
\<close>

theorem OnChange_suppresses_identical_witness:
  "err (OnChange exQuote ''tq'' exDeepEqual exUpsertOk NewTriggerQueueSubscriber [] exState False) = None \<and>
   exDeepEqual (Data (fromState ''tq'' exState)) (Data (fromState ''tq'' exState)) \<and>
   upserts (OnChange exQuote ''tq'' exDeepEqual exUpsertOk
              (subscriber (OnChange exQuote ''tq'' exDeepEqual exUpsertOk NewTriggerQueueSubscriber [] exState False))
              (upserts (OnChange exQuote ''tq'' exDeepEqual exUpsertOk NewTriggerQueueSubscriber [] exState False))
              exState False)
     = [fromState ''tq'' exState]"
proof -
  have h: "err (OnChange exQuote ''tq'' exDeepEqual exUpsertOk NewTriggerQueueSubscriber [] exState False) = None"
    "exDeepEqual (Data (fromState ''tq'' exState)) (Data (fromState ''tq'' exState))"
    by (simp_all add: OnChange_def NewTriggerQueueSubscriber_def exUpsertOk_def exDeepEqual_def Let_def)
  note t = OnChange_suppresses_identical
         [of NewTriggerQueueSubscriber exDeepEqual "''tq''" exState exQuote exUpsertOk "[]" False]
  have e: "upserts (OnChange exQuote ''tq'' exDeepEqual exUpsertOk
              (subscriber (OnChange exQuote ''tq'' exDeepEqual exUpsertOk NewTriggerQueueSubscriber [] exState False))
              (upserts (OnChange exQuote ''tq'' exDeepEqual exUpsertOk NewTriggerQueueSubscriber [] exState False))
              exState False)
     = upserts (OnChange exQuote ''tq'' exDeepEqual exUpsertOk NewTriggerQueueSubscriber [] exState False)"
    using t[THEN conjunct2, THEN conjunct1] h by blast
  have "upserts (OnChange exQuote ''tq'' exDeepEqual exUpsertOk
              (subscriber (OnChange exQuote ''tq'' exDeepEqual exUpsertOk NewTriggerQueueSubscriber [] exState False))
              (upserts (OnChange exQuote ''tq'' exDeepEqual exUpsertOk NewTriggerQueueSubscriber [] exState False))
              exState False)
     = [fromState ''tq'' exState]"
    using e t[THEN conjunct2, THEN conjunct2] by (rule trans)
  then show ?thesis by (rule conjI[OF h(1) conjI[OF h(2)]])
qed

section \<open>Properties of the owned-object reconciler\<close>

lemma runCalls_Nil: "runCalls client [] st = st"
  by (simp add: runCalls_def)

lemma runCalls_append: "runCalls client (cs @ ds) st = runCalls client ds (runCalls client cs st)"
proof -
  have "replayErrors client done (cs @ ds) = replayErrors client done cs @ replayErrors client (done @ cs) ds" for "done"
    by (induction cs arbitrary: "done") (auto split: option.splits)
  then show ?thesis by (simp add: runCalls_def)
qed

lemma applyCall_run:
  "callVerb c = verb \<Longrightarrow> callObject c = obj \<Longrightarrow> applyCall client verb obj c st = runCalls client [c] st"
  by (cases st) (auto simp: applyCall_def runCalls_def split: option.splits)

lemma upsertTyped_run:
  "upsertTyped client deq oldObjects t s st =
     runCalls client (concat (map (upsertCalls deq oldObjects t) s)) st"
proof (induction s arbitrary: st)
  case Nil
  show ?case by (simp add: runCalls_Nil)
next
  case (Cons p s)
  obtain name obj where p: "p = (name, obj)" by (cases p)
  show ?case unfolding p
    by (simp add: Cons.IH runCalls_append upsertCalls_def objectAt_def applyCall_run
        runCalls_Nil Let_def split: option.splits)
qed

lemma upsertLoop_run:
  "upsertLoop client deq oldObjects newObjects st =
     runCalls client (concat (map (\<lambda>(t, s). concat (map (upsertCalls deq oldObjects t) s)) newObjects)) st"
proof (induction newObjects arbitrary: st)
  case Nil
  show ?case by (simp add: runCalls_Nil)
next
  case (Cons p rest)
  obtain t s where p: "p = (t, s)" by (cases p)
  show ?case unfolding p by (simp add: Cons.IH runCalls_append upsertTyped_run)
qed

lemma deleteTyped_run:
  "deleteTyped client newObjects t s st =
     runCalls client (concat (map (deleteCalls newObjects t) s)) st"
proof (induction s arbitrary: st)
  case Nil
  show ?case by (simp add: runCalls_Nil)
next
  case (Cons p s)
  obtain name obj where p: "p = (name, obj)" by (cases p)
  show ?case unfolding p
    by (auto simp add: Cons.IH runCalls_append deleteCalls_def objectAt_def applyCall_run
        runCalls_Nil split: option.splits)
qed

lemma deleteLoop_run:
  "deleteLoop client newObjects oldObjects st =
     runCalls client (concat (map (\<lambda>(t, s). concat (map (deleteCalls newObjects t) s)) oldObjects)) st"
proof (induction oldObjects arbitrary: st)
  case Nil
  show ?case by (simp add: runCalls_Nil)
next
  case (Cons p rest)
  obtain t s where p: "p = (t, s)" by (cases p)
  show ?case unfolding p by (simp add: Cons.IH runCalls_append deleteTyped_run)
qed

lemma updateObjects_run:
  "updateObjects client deq newObjects oldObjects =
     (NewAggregate (replayErrors client [] (plannedCalls deq newObjects oldObjects)),
      plannedCalls deq newObjects oldObjects)"
  by (simp add: updateObjects_def upsertLoop_run deleteLoop_run runCalls_append[symmetric]
      plannedCalls_def Let_def) (simp add: runCalls_def)

lemma filter_concat_assoc_none:
  "k \<notin> fst ` set xs \<Longrightarrow> \<forall>(k', v)\<in>set xs. \<forall>c\<in>set (f k' v). ckey c = k' \<Longrightarrow>
   filter (\<lambda>c. ckey c = k) (concat (map (\<lambda>(k', v). f k' v) xs)) = []"
  by (induction xs) (auto simp: filter_empty_conv)

lemma filter_concat_assoc:
  assumes "distinct (map fst xs)" and "\<forall>(k', v)\<in>set xs. \<forall>c\<in>set (f k' v). ckey c = k'"
  shows "filter (\<lambda>c. ckey c = k) (concat (map (\<lambda>(k', v). f k' v) xs)) =
           (case map_of xs k of None \<Rightarrow> [] | Some v \<Rightarrow> f k v)"
  using assms
proof (induction xs)
  case Nil
  show ?case by simp
next
  case (Cons p xs)
  obtain k' v where p: "p = (k', v)" by (cases p)
  have d: "distinct (map fst xs)" "k' \<notin> fst ` set xs" using Cons.prems(1) p by auto
  have a: "\<forall>(k', v)\<in>set xs. \<forall>c\<in>set (f k' v). ckey c = k'" using Cons.prems(2) by simp
  have h: "\<forall>c\<in>set (f k' v). ckey c = k'" using Cons.prems(2) p by simp
  show ?case
  proof (cases "k' = k")
    case True
    have "filter (\<lambda>c. ckey c = k) (f k' v) = f k' v" using h True by (simp add: filter_id_conv)
    moreover have "filter (\<lambda>c. ckey c = k) (concat (map (\<lambda>(k', v). f k' v) xs)) = []"
      using filter_concat_assoc_none[OF _ a, of k] d(2) True by simp
    ultimately show ?thesis using True p by simp
  next
    case False
    have "filter (\<lambda>c. ckey c = k) (f k' v) = []" using h False by (auto simp: filter_empty_conv)
    then show ?thesis using Cons.IH[OF d(1) a] False p by simp
  qed
qed

lemma upsertCalls_key:
  "ObjGVR obj = t \<Longrightarrow> ObjName obj = name \<Longrightarrow> c \<in> set (upsertCalls deq oldObjects t (name, obj)) \<Longrightarrow>
   ObjGVR (callObject c) = t \<and> ObjName (callObject c) = name"
  by (auto simp: upsertCalls_def split: option.splits if_splits)

lemma deleteCalls_key:
  "ObjGVR obj = t \<Longrightarrow> ObjName obj = name \<Longrightarrow> c \<in> set (deleteCalls newObjects t (name, obj)) \<Longrightarrow>
   ObjGVR (callObject c) = t \<and> ObjName (callObject c) = name"
  by (auto simp: deleteCalls_def split: option.splits)

lemma callsFor_nested:
  assumes wf: "wellFormed objects"
    and key: "\<And>t name obj c. ObjGVR obj = t \<Longrightarrow> ObjName obj = name \<Longrightarrow> c \<in> set (g t (name, obj)) \<Longrightarrow>
                ObjGVR (callObject c) = t \<and> ObjName (callObject c) = name"
  shows "callsFor t name (concat (map (\<lambda>(t, s). concat (map (g t) s)) objects)) =
           (case objectAt objects t name of None \<Rightarrow> [] | Some obj \<Rightarrow> g t (name, obj))"
proof -
  let ?F = "\<lambda>t s. concat (map (g t) s)"
  have d: "distinct (map fst objects)" using wf by (simp add: wellFormed_def)
  have wfs: "distinct (map fst s) \<and> (\<forall>(name, obj)\<in>set s. ObjGVR obj = t' \<and> ObjName obj = name)"
    if "(t', s) \<in> set objects" for t' s
    using wf that by (auto simp: wellFormed_def)
  have outer_key: "\<forall>(t', s)\<in>set objects. \<forall>c\<in>set (?F t' s). ObjGVR (callObject c) = t'"
  proof (clarify)
    fix t' s c assume m: "(t', s) \<in> set objects" and c: "c \<in> set (?F t' s)"
    then obtain p where p: "p \<in> set s" "c \<in> set (g t' p)" by auto
    obtain n obj where po: "p = (n, obj)" by (cases p)
    have "ObjGVR obj = t' \<and> ObjName obj = n" using wfs[OF m] p(1) po by auto
    then show "ObjGVR (callObject c) = t'" using key[of obj t' n c] p(2) po by simp
  qed
  have split: "callsFor t name cs =
      filter (\<lambda>c. ObjName (callObject c) = name) (filter (\<lambda>c. ObjGVR (callObject c) = t) cs)" for cs
    by (auto simp: callsFor_def intro: filter_cong)
  have outer: "filter (\<lambda>c. ObjGVR (callObject c) = t) (concat (map (\<lambda>(t, s). ?F t s) objects)) =
      (case map_of objects t of None \<Rightarrow> [] | Some s \<Rightarrow> ?F t s)"
    by (rule filter_concat_assoc[OF d outer_key])
  show ?thesis
  proof (cases "map_of objects t")
    case None
    then show ?thesis unfolding split outer by (simp add: objectAt_def)
  next
    case (Some s)
    then have m: "(t, s) \<in> set objects" by (rule map_of_SomeD)
    have ds: "distinct (map fst s)" using wfs[OF m] by simp
    have ik: "\<forall>(n, obj)\<in>set s. \<forall>c\<in>set (g t (n, obj)). ObjName (callObject c) = n"
      using wfs[OF m] key by fastforce
    have "filter (\<lambda>c. ObjName (callObject c) = name) (concat (map (\<lambda>(n, obj). g t (n, obj)) s)) =
            (case map_of s name of None \<Rightarrow> [] | Some obj \<Rightarrow> g t (name, obj))"
      by (rule filter_concat_assoc[OF ds ik])
    then show ?thesis unfolding split outer using Some by (simp add: objectAt_def)
  qed
qed

lemma callsFor_append: "callsFor t name (xs @ ys) = callsFor t name xs @ callsFor t name ys"
  by (simp add: callsFor_def)

lemma callsFor_planned:
  assumes "wellFormed newObjects" "wellFormed oldObjects"
  shows "callsFor t name (plannedCalls deq newObjects oldObjects) =
      (case (objectAt newObjects t name, objectAt oldObjects t name) of
         (Some obj, None) \<Rightarrow> [Create obj]
       | (Some obj, Some old) \<Rightarrow>
           if deq (ObjSpec old) (ObjSpec obj) then []
           else [Update (obj\<lparr>ObjResourceVersion := ObjResourceVersion old\<rparr>)]
       | (None, Some old) \<Rightarrow> [Delete old]
       | (None, None) \<Rightarrow> [])"
proof -
  have u: "callsFor t name (concat (map (\<lambda>(t, s). concat (map (upsertCalls deq oldObjects t) s)) newObjects)) =
           (case objectAt newObjects t name of None \<Rightarrow> []
            | Some obj \<Rightarrow> upsertCalls deq oldObjects t (name, obj))"
    by (rule callsFor_nested[OF assms(1)]) (rule upsertCalls_key)
  have d: "callsFor t name (concat (map (\<lambda>(t, s). concat (map (deleteCalls newObjects t) s)) oldObjects)) =
           (case objectAt oldObjects t name of None \<Rightarrow> []
            | Some obj \<Rightarrow> deleteCalls newObjects t (name, obj))"
    by (rule callsFor_nested[OF assms(2)]) (rule deleteCalls_key)
  show ?thesis
    unfolding plannedCalls_def callsFor_append u d
    by (auto simp: upsertCalls_def deleteCalls_def split: option.splits)
qed

lemma replayErrors_empty_iff:
  "(replayErrors client done cs = []) =
     (\<forall>i<length cs. client (done @ take i cs) (cs ! i) = None)"
proof (induction cs arbitrary: "done")
  case Nil
  show ?case by simp
next
  case (Cons c cs)
  have "(\<forall>i<length (c # cs). client (done @ take i (c # cs)) ((c # cs) ! i) = None) =
        (client done c = None \<and> (\<forall>i<length cs. client ((done @ [c]) @ take i cs) (cs ! i) = None))"
    (is "?L = ?R")
  proof
    assume l: ?L
    have "client done c = None" using l[rule_format, of 0] by simp
    moreover have "client ((done @ [c]) @ take i cs) (cs ! i) = None" if "i < length cs" for i
      using l[rule_format, of "Suc i"] that by simp
    ultimately show ?R by blast
  next
    assume r: ?R
    show ?L
    proof (intro allI impI)
      fix i assume "i < length (c # cs)"
      then show "client (done @ take i (c # cs)) ((c # cs) ! i) = None"
        using r by (cases i) auto
    qed
  qed
  then show ?case using Cons.IH[of "done @ [c]"] by (auto split: option.splits)
qed

lemma update_set_cases:
  "(k', v') \<in> set (AList.update k v al) \<Longrightarrow> (k' = k \<and> v' = v) \<or> (k', v') \<in> set al"
  by (induction al) (auto split: if_splits)

lemma itemsLoop_entries:
  "(name, obj) \<in> set (itemsLoop items m) \<Longrightarrow>
   (name, obj) \<in> set m \<or> (obj \<in> set items \<and> name = ObjName obj)"
proof (induction items arbitrary: m)
  case Nil
  then show ?case by simp
next
  case (Cons item items)
  from Cons.IH[of "AList.update (ObjName item) item m"] Cons.prems
  show ?case using update_set_cases[of name obj "ObjName item" item m] by auto
qed

lemma itemsLoop_distinct: "distinct (map fst m) \<Longrightarrow> distinct (map fst (itemsLoop items m))"
  by (induction items arbitrary: m) (simp_all add: distinct_update)

lemma listedSet_entries:
  "(name, obj) \<in> set (listedSet env store gvr) \<Longrightarrow>
   obj \<in> set store \<and> owned env obj \<and> ObjGVR obj = gvr \<and> ObjName obj = name"
  using itemsLoop_entries[of name obj _ "[]"] by (fastforce simp: listedSet_def owned_def)

lemma getExisting_entries:
  assumes "getExistingAPIObjects env (listFrom store) = Inr oldObjects"
    and "(t, s) \<in> set oldObjects"
  shows "s = listedSet env store t"
proof -
  let ?ka = "listedSet env store (KubernetesApplyGVR env)"
  let ?im = "listedSet env store (ImageMapGVR env)"
  let ?fw = "listedSet env store (FileWatchGVR env)"
  have old: "oldObjects = AList.update (FileWatchGVR env) ?fw
               (AList.update (ImageMapGVR env) ?im
                 (AList.update (KubernetesApplyGVR env) ?ka []))"
    using assms(1)
    by (simp add: getExistingAPIObjects_def listFrom_def ownerSelector_def listedSet_def Let_def)
  have 1: "(t = FileWatchGVR env \<and> s = ?fw) \<or>
           (t, s) \<in> set (AList.update (ImageMapGVR env) ?im
                           (AList.update (KubernetesApplyGVR env) ?ka []))"
    using assms(2) unfolding old by (rule update_set_cases)
  have 2: "(t = ImageMapGVR env \<and> s = ?im) \<or>
           (t, s) \<in> set (AList.update (KubernetesApplyGVR env) ?ka [])"
    if "(t, s) \<in> set (AList.update (ImageMapGVR env) ?im
                           (AList.update (KubernetesApplyGVR env) ?ka []))"
    using that by (rule update_set_cases)
  have 3: "t = KubernetesApplyGVR env \<and> s = ?ka"
    if "(t, s) \<in> set (AList.update (KubernetesApplyGVR env) ?ka [])"
    using that by simp
  show ?thesis using 1 2 3 by blast
qed

lemma getExisting_wellFormed:
  assumes "getExistingAPIObjects env (listFrom store) = Inr oldObjects"
  shows "wellFormed oldObjects"
proof -
  have old: "oldObjects = AList.update (FileWatchGVR env) (listedSet env store (FileWatchGVR env))
               (AList.update (ImageMapGVR env) (listedSet env store (ImageMapGVR env))
                 (AList.update (KubernetesApplyGVR env) (listedSet env store (KubernetesApplyGVR env)) []))"
    using assms
    by (simp add: getExistingAPIObjects_def listFrom_def ownerSelector_def listedSet_def Let_def)
  have d: "distinct (map fst oldObjects)" unfolding old by (intro distinct_update) simp
  have e: "distinct (map fst s) \<and> (\<forall>(name, obj)\<in>set s. ObjGVR obj = t \<and> ObjName obj = name)"
    if "(t, s) \<in> set oldObjects" for t s
  proof -
    have s: "s = listedSet env store t" using getExisting_entries[OF assms that] .
    have "distinct (map fst s)" unfolding s listedSet_def by (rule itemsLoop_distinct) simp
    then show ?thesis using listedSet_entries[of _ _ env store t] s by auto
  qed
  show ?thesis unfolding wellFormed_def using d e by fastforce
qed

lemma planned_members:
  assumes "c \<in> set (plannedCalls deq newObjects oldObjects)"
  shows "(\<exists>t s name obj. (t, s) \<in> set newObjects \<and> (name, obj) \<in> set s \<and>
            (c = Create obj \<or>
             (\<exists>old. objectAt oldObjects t name = Some old \<and>
                c = Update (obj\<lparr>ObjResourceVersion := ObjResourceVersion old\<rparr>)))) \<or>
         (\<exists>t s name obj. (t, s) \<in> set oldObjects \<and> (name, obj) \<in> set s \<and> c = Delete obj)"
  using assms
  by (fastforce simp: plannedCalls_def upsertCalls_def deleteCalls_def
      split: option.splits if_splits)

lemma objectAt_member:
  "objectAt objects t name = Some obj \<Longrightarrow> \<exists>s. (t, s) \<in> set objects \<and> (name, obj) \<in> set s"
  by (auto simp: objectAt_def split: option.splits dest: map_of_SomeD)

text \<open>
  C1. For well-formed desired and actual sets and any client, the calls that
  \<open>updateObjects\<close> makes for a kind and a name are: exactly one create call, with the
  desired object, when only the desired set has the entry; exactly one delete call, with
  the actual object, when only the actual set has it; exactly one update call, with the
  desired object carrying the actual object's resource version, when both have it and the
  specs do not compare equal; and no call when both have it and the specs compare equal, or
  when neither has it. When the actual set is the one \<open>getExistingAPIObjects\<close> lists
  through the owner selector from a store, every delete call is for a store object that
  carries the owner label, every update call is for the kind and name of such an object
  and carries its resource version, and, the desired objects carrying the owner label as
  well, every call made carries an object with the owner label: an object without the
  label is never the object of a call.
\<close>

theorem updateObjects_diff:
  assumes "wellFormed newObjects" and "wellFormed oldObjects"
  shows
    "callsFor t name (snd (updateObjects client deq newObjects oldObjects)) =
      (case (objectAt newObjects t name, objectAt oldObjects t name) of
         (Some obj, None) \<Rightarrow> [Create obj]
       | (Some obj, Some old) \<Rightarrow>
           if deq (ObjSpec old) (ObjSpec obj) then []
           else [Update (obj\<lparr>ObjResourceVersion := ObjResourceVersion old\<rparr>)]
       | (None, Some old) \<Rightarrow> [Delete old]
       | (None, None) \<Rightarrow> []) \<and>
     (getExistingAPIObjects env (listFrom store) = Inr oldObjects \<longrightarrow>
        (\<forall>obj. Delete obj \<in> set (snd (updateObjects client deq newObjects oldObjects)) \<longrightarrow>
           obj \<in> set store \<and> owned env obj) \<and>
        (\<forall>obj. Update obj \<in> set (snd (updateObjects client deq newObjects oldObjects)) \<longrightarrow>
           (\<exists>cur\<in>set store. owned env cur \<and> ObjGVR cur = ObjGVR obj \<and> ObjName cur = ObjName obj \<and>
              ObjResourceVersion obj = ObjResourceVersion cur)) \<and>
        ((\<forall>(t, s)\<in>set newObjects. \<forall>(name, obj)\<in>set s. owned env obj) \<longrightarrow>
           (\<forall>c\<in>set (snd (updateObjects client deq newObjects oldObjects)). owned env (callObject c))))"
proof -
  let ?calls = "snd (updateObjects client deq newObjects oldObjects)"
  have calls: "?calls = plannedCalls deq newObjects oldObjects"
    by (simp add: updateObjects_run)
  have A: "callsFor t name ?calls =
      (case (objectAt newObjects t name, objectAt oldObjects t name) of
         (Some obj, None) \<Rightarrow> [Create obj]
       | (Some obj, Some old) \<Rightarrow>
           if deq (ObjSpec old) (ObjSpec obj) then []
           else [Update (obj\<lparr>ObjResourceVersion := ObjResourceVersion old\<rparr>)]
       | (None, Some old) \<Rightarrow> [Delete old]
       | (None, None) \<Rightarrow> [])"
    unfolding calls by (rule callsFor_planned[OF assms])
  have B: "(\<forall>obj. Delete obj \<in> set ?calls \<longrightarrow> obj \<in> set store \<and> owned env obj) \<and>
        (\<forall>obj. Update obj \<in> set ?calls \<longrightarrow>
           (\<exists>cur\<in>set store. owned env cur \<and> ObjGVR cur = ObjGVR obj \<and> ObjName cur = ObjName obj \<and>
              ObjResourceVersion obj = ObjResourceVersion cur)) \<and>
        ((\<forall>(t, s)\<in>set newObjects. \<forall>(name, obj)\<in>set s. owned env obj) \<longrightarrow>
           (\<forall>c\<in>set ?calls. owned env (callObject c)))"
    if g: "getExistingAPIObjects env (listFrom store) = Inr oldObjects"
  proof -
    have oldE: "obj \<in> set store \<and> owned env obj \<and> ObjGVR obj = t' \<and> ObjName obj = n"
      if "(t', s) \<in> set oldObjects" "(n, obj) \<in> set s" for t' s n obj
      using getExisting_entries[OF g that(1)] listedSet_entries[of n obj env store t'] that(2)
      by simp
    have newK: "ObjGVR obj = t' \<and> ObjName obj = n"
      if "(t', s) \<in> set newObjects" "(n, obj) \<in> set s" for t' s n obj
      using assms(1) that by (auto simp: wellFormed_def)
    have del: "obj \<in> set store \<and> owned env obj" if "Delete obj \<in> set ?calls" for obj
      using planned_members[of "Delete obj" deq newObjects oldObjects] that oldE
      unfolding calls by auto
    have upd: "\<exists>cur\<in>set store. owned env cur \<and> ObjGVR cur = ObjGVR obj \<and> ObjName cur = ObjName obj \<and>
              ObjResourceVersion obj = ObjResourceVersion cur" if "Update obj \<in> set ?calls" for obj
    proof -
      from planned_members[of "Update obj" deq newObjects oldObjects] that
      obtain t' s n nobj old where m: "(t', s) \<in> set newObjects" "(n, nobj) \<in> set s"
          "objectAt oldObjects t' n = Some old"
          "obj = nobj\<lparr>ObjResourceVersion := ObjResourceVersion old\<rparr>"
        unfolding calls by auto
      from objectAt_member[OF m(3)] obtain s' where "(t', s') \<in> set oldObjects" "(n, old) \<in> set s'"
        by blast
      from oldE[OF this] newK[OF m(1,2)] m(4) show ?thesis by (intro bexI[of _ old]) auto
    qed
    have own: "owned env (callObject c)"
      if d: "\<forall>(t, s)\<in>set newObjects. \<forall>(name, obj)\<in>set s. owned env obj" and c: "c \<in> set ?calls" for c
    proof -
      have o1: "owned env obj" if "(t', s) \<in> set newObjects" "(n, obj) \<in> set s" for t' s n obj
        using d that by auto
      have o2: "owned env (obj\<lparr>ObjResourceVersion := rv\<rparr>)" if "owned env obj" for obj :: "'a APIObject" and rv
        using that by (simp add: owned_def)
      from planned_members[OF c[unfolded calls]] show ?thesis
      proof (elim disjE exE conjE)
        fix t' s n obj assume "(t', s) \<in> set newObjects" "(n, obj) \<in> set s" "c = Create obj"
        then show ?thesis using o1 by simp
      next
        fix t' s n obj old assume "(t', s) \<in> set newObjects" "(n, obj) \<in> set s"
          "c = Update (obj\<lparr>ObjResourceVersion := ObjResourceVersion old\<rparr>)"
        then show ?thesis using o1 o2 by simp
      next
        fix t' s n obj assume "(t', s) \<in> set oldObjects" "(n, obj) \<in> set s" "c = Delete obj"
        then show ?thesis using oldE by simp
      qed
    qed
    show ?thesis using del upd own by blast
  qed
  show ?thesis using A B by blast
qed

text \<open>
  C5. Whatever the client answers, \<open>updateObjects\<close> makes the same calls in the same
  order as it makes with a client that accepts every call: a failed call neither stops
  the pass nor adds a call that would undo an earlier one. The error returned is the
  aggregate of the errors of exactly the calls that failed, in order of the calls, and it
  is nil exactly when every call made succeeded.
\<close>

theorem updateObjects_collects_errors:
  "snd (updateObjects client deq newObjects oldObjects)
     = snd (updateObjects neverFails deq newObjects oldObjects) \<and>
   fst (updateObjects client deq newObjects oldObjects)
     = NewAggregate (replayErrors client [] (snd (updateObjects client deq newObjects oldObjects))) \<and>
   ((fst (updateObjects client deq newObjects oldObjects) = None) =
      (\<forall>i<length (snd (updateObjects client deq newObjects oldObjects)).
         client (take i (snd (updateObjects client deq newObjects oldObjects)))
                (snd (updateObjects client deq newObjects oldObjects) ! i) = None))"
  using replayErrors_empty_iff[of client "[]" "plannedCalls deq newObjects oldObjects"]
  by (simp add: updateObjects_run NewAggregate_def)

text \<open>
  The example: the store holds the owned objects \<open>a\<close>, \<open>b\<close> and the object \<open>z\<close>
  without the owner label, all of one kind, and an owned object \<open>f\<close> of another kind.
  The desired set changes the spec of \<open>a\<close>, adds \<open>c\<close>, drops \<open>b\<close> and keeps \<open>f\<close>.
  The client fails every create call.
\<close>

lemma exGVR_inj: "(exGVR r = exGVR r') = (r = r')"
  by (simp add: exGVR_def)

lemma exActual_listed: "getExistingAPIObjects exEnv (listFrom exStore) = Inr exActual"
  by (simp add: getExistingAPIObjects_def listFrom_def ownerSelector_def exEnv_def exStore_def
      exActual_def exObj_def exGVR_inj Let_def)

lemma exDesired_wf: "wellFormed exDesired"
  by (simp add: wellFormed_def exDesired_def exObj_def exGVR_inj)

lemma exActual_wf: "wellFormed exActual"
  by (simp add: wellFormed_def exActual_def exObj_def exGVR_inj)

lemma ex_calls:
  "updateObjects exFailCreate (=) exDesired exActual =
     (Some [''create kubernetesapplys/c: boom''],
      [Update (exObj ''kubernetesapplys'' ''a'' True ''1'' ''x2''),
       Create (exObj ''kubernetesapplys'' ''c'' True [] ''v''),
       Delete (exObj ''kubernetesapplys'' ''b'' True ''2'' ''y'')])"
  by (simp add: updateObjects_def exDesired_def exActual_def exGVR_inj Let_def applyCall_def
      exFailCreate_def NewAggregate_def)
     (simp add: exObj_def exGVR_def)

text \<open>
  The theorem for C1 on the example: one update for \<open>a\<close>, no call for \<open>z\<close>, and the
  object deleted carries the owner label.
\<close>

theorem updateObjects_diff_witness:
  "wellFormed exDesired \<and> wellFormed exActual \<and>
   getExistingAPIObjects exEnv (listFrom exStore) = Inr exActual \<and>
   callsFor (exGVR ''kubernetesapplys'') ''a'' (snd (updateObjects exFailCreate (=) exDesired exActual))
     = [Update (exObj ''kubernetesapplys'' ''a'' True ''1'' ''x2'')] \<and>
   callsFor (exGVR ''kubernetesapplys'') ''z'' (snd (updateObjects exFailCreate (=) exDesired exActual))
     = [] \<and>
   Delete (exObj ''kubernetesapplys'' ''b'' True ''2'' ''y'')
     \<in> set (snd (updateObjects exFailCreate (=) exDesired exActual)) \<and>
   owned exEnv (exObj ''kubernetesapplys'' ''b'' True ''2'' ''y'')"
proof -
  note ta = updateObjects_diff [OF exDesired_wf exActual_wf,
      of "exGVR ''kubernetesapplys''" "''a''" exFailCreate "(=)" exEnv exStore]
  note tz = updateObjects_diff [OF exDesired_wf exActual_wf,
      of "exGVR ''kubernetesapplys''" "''z''" exFailCreate "(=)" exEnv exStore]
  have oa: "objectAt exDesired (exGVR ''kubernetesapplys'') ''a''
              = Some (exObj ''kubernetesapplys'' ''a'' True [] ''x2'')"
       "objectAt exActual (exGVR ''kubernetesapplys'') ''a''
              = Some (exObj ''kubernetesapplys'' ''a'' True ''1'' ''x'')"
       "objectAt exDesired (exGVR ''kubernetesapplys'') ''z'' = None"
       "objectAt exActual (exGVR ''kubernetesapplys'') ''z'' = None"
    by (simp_all add: objectAt_def exDesired_def exActual_def exGVR_inj)
  have 1: "callsFor (exGVR ''kubernetesapplys'') ''a'' (snd (updateObjects exFailCreate (=) exDesired exActual))
     = [Update (exObj ''kubernetesapplys'' ''a'' True ''1'' ''x2'')]"
    using ta[THEN conjunct1] unfolding oa by (simp add: exObj_def)
  have 2: "callsFor (exGVR ''kubernetesapplys'') ''z'' (snd (updateObjects exFailCreate (=) exDesired exActual))
     = []"
    using tz[THEN conjunct1] unfolding oa by simp
  have 3: "Delete (exObj ''kubernetesapplys'' ''b'' True ''2'' ''y'')
     \<in> set (snd (updateObjects exFailCreate (=) exDesired exActual))"
    by (simp add: ex_calls)
  have 4: "owned exEnv (exObj ''kubernetesapplys'' ''b'' True ''2'' ''y'')"
    using ta[THEN conjunct2] exActual_listed 3 by blast
  show ?thesis using exDesired_wf exActual_wf exActual_listed 1 2 3 4 by (intro conjI)
qed

text \<open>
  The theorem for C5 on the example: the create call fails, the three calls are made all
  the same, and the error returned names the failed call.
\<close>

theorem updateObjects_collects_errors_witness:
  "fst (updateObjects exFailCreate (=) exDesired exActual) = Some [''create kubernetesapplys/c: boom''] \<and>
   snd (updateObjects exFailCreate (=) exDesired exActual)
     = snd (updateObjects neverFails (=) exDesired exActual) \<and>
   length (snd (updateObjects exFailCreate (=) exDesired exActual)) = 3 \<and>
   \<not> (\<forall>i<length (snd (updateObjects exFailCreate (=) exDesired exActual)).
         exFailCreate (take i (snd (updateObjects exFailCreate (=) exDesired exActual)))
                (snd (updateObjects exFailCreate (=) exDesired exActual) ! i) = None)"
proof -
  note t = updateObjects_collects_errors [of exFailCreate "(=)" exDesired exActual]
  have 1: "fst (updateObjects exFailCreate (=) exDesired exActual) = Some [''create kubernetesapplys/c: boom'']"
    by (simp add: ex_calls)
  have 3: "length (snd (updateObjects exFailCreate (=) exDesired exActual)) = 3"
    by (simp add: ex_calls)
  have 4: "\<not> (\<forall>i<length (snd (updateObjects exFailCreate (=) exDesired exActual)).
         exFailCreate (take i (snd (updateObjects exFailCreate (=) exDesired exActual)))
                (snd (updateObjects exFailCreate (=) exDesired exActual) ! i) = None)"
    using t[THEN conjunct2, THEN conjunct2] 1 by simp
  show ?thesis using 1 t[THEN conjunct1] 3 4 by (intro conjI)
qed

section \<open>Properties of the process-server controller\<close>



















end
